theory Spec2Isabelle
  imports Main "HOL-Library.Multiset"
begin

section \<open>Go strings\<close>

text \<open>
  A Go \<^verbatim>\<open>string\<close> is a sequence of bytes, here a \<^typ>\<open>string\<close> (a list of
  8-bit characters). The functions of package \<^verbatim>\<open>strings\<close> that the crawler and
  the URL library call are written out on byte lists. An index that Go reports as
  \<^verbatim>\<open>-1\<close> is \<^term>\<open>None\<close>.
\<close>

definition HasPrefix :: "string \<Rightarrow> string \<Rightarrow> bool" where
  "HasPrefix s pre = (length pre \<le> length s \<and> take (length pre) s = pre)"

definition HasSuffix :: "string \<Rightarrow> string \<Rightarrow> bool" where
  "HasSuffix s suf = (length suf \<le> length s \<and> drop (length s - length suf) s = suf)"

definition TrimSuffix :: "string \<Rightarrow> string \<Rightarrow> string" where
  "TrimSuffix s suf = (if HasSuffix s suf then take (length s - length suf) s else s)"

fun Index :: "string \<Rightarrow> string \<Rightarrow> nat option" where
  "Index [] sub = (if sub = [] then Some 0 else None)"
| "Index (c # s) sub =
     (if HasPrefix (c # s) sub then Some 0 else map_option Suc (Index s sub))"

definition LastIndex :: "string \<Rightarrow> string \<Rightarrow> nat option" where
  "LastIndex s sub =
     (case Index (rev s) (rev sub) of
        None \<Rightarrow> None
      | Some i \<Rightarrow> Some (length s - i - length sub))"

definition Contains :: "string \<Rightarrow> string \<Rightarrow> bool" where
  "Contains s sub = (Index s sub \<noteq> None)"

text \<open>\<^verbatim>\<open>strings.Cut\<close>: the text before and after the first separator, and whether it was found.\<close>

definition Cut :: "string \<Rightarrow> string \<Rightarrow> string \<times> string \<times> bool" where
  "Cut s sep =
     (case Index s sep of
        None \<Rightarrow> (s, [], False)
      | Some i \<Rightarrow> (take i s, drop (i + length sep) s, True))"

text \<open>
  \<^verbatim>\<open>strings.ToLower\<close> on ASCII: the letters A to Z are mapped to a to z and every
  other byte is kept. (Go also lowers letters outside ASCII, by Unicode case mapping of the
  UTF-8 text; that part is not modelled, the extension list below is ASCII.)
\<close>

definition lower_byte :: "char \<Rightarrow> char" where
  "lower_byte c =
     (if 65 \<le> (of_char c :: nat) \<and> (of_char c :: nat) \<le> 90
      then char_of ((of_char c :: nat) + 32) else c)"

definition ToLower :: "string \<Rightarrow> string" where
  "ToLower s = map lower_byte s"

text \<open>
  A Go \<^verbatim>\<open>map[string]bool\<close> is a partial map; reading a key that is absent gives
  \<^verbatim>\<open>false\<close>.
\<close>

definition lookup_bool :: "(string \<rightharpoonup> bool) \<Rightarrow> string \<Rightarrow> bool" where
  "lookup_bool m k = (case m k of Some b \<Rightarrow> b | None \<Rightarrow> False)"

section \<open>The URL type of the standard library\<close>

text \<open>
  \<^verbatim>\<open>net/url\<close> is not part of the repository. The record holds the fields of
  \<^verbatim>\<open>url.URL\<close> that the crawler reads, and the four library functions it calls
  (\<^verbatim>\<open>Parse\<close>, \<^verbatim>\<open>IsAbs\<close>, \<^verbatim>\<open>ResolveReference\<close>, \<^verbatim>\<open>String\<close>) are
  modelled after the library for references without user information and without
  percent-escapes: a path or host is stored and printed as it is written, and the
  checks of the library that reject a malformed host, port or escape are left out.
\<close>

record url =
  Scheme :: string
  Opaque :: string
  Host :: string
  Path :: string
  OmitHost :: bool
  ForceQuery :: bool
  RawQuery :: string
  Fragment :: string

definition empty_url :: url where
  "empty_url = \<lparr>Scheme = [], Opaque = [], Host = [], Path = [], OmitHost = False,
     ForceQuery = False, RawQuery = [], Fragment = []\<rparr>"

definition is_letter :: "char \<Rightarrow> bool" where
  "is_letter c = (let n = (of_char c :: nat) in (97 \<le> n \<and> n \<le> 122) \<or> (65 \<le> n \<and> n \<le> 90))"

definition is_scheme_extra :: "char \<Rightarrow> bool" where
  "is_scheme_extra c =
     (let n = (of_char c :: nat) in (48 \<le> n \<and> n \<le> 57) \<or> c = CHR ''+'' \<or> c = CHR ''-'' \<or> c = CHR ''.'')"

text \<open>
  \<^verbatim>\<open>getScheme\<close>: the scan over the bytes of the raw text; \<^term>\<open>pre\<close> holds
  the bytes already read. \<^term>\<open>None\<close> is the error "missing protocol scheme".
\<close>

fun scan_scheme :: "string \<Rightarrow> string \<Rightarrow> string \<Rightarrow> (string \<times> string) option" where
  "scan_scheme rawURL pre [] = Some ([], rawURL)"
| "scan_scheme rawURL pre (c # cs) =
     (if is_letter c then scan_scheme rawURL (pre @ [c]) cs
      else if is_scheme_extra c then
        (if pre = [] then Some ([], rawURL) else scan_scheme rawURL (pre @ [c]) cs)
      else if c = CHR '':'' then
        (if pre = [] then None else Some (pre, cs))
      else Some ([], rawURL))"

definition getScheme :: "string \<Rightarrow> (string \<times> string) option" where
  "getScheme rawURL = scan_scheme rawURL [] rawURL"

definition stringContainsCTLByte :: "string \<Rightarrow> bool" where
  "stringContainsCTLByte s = list_ex (\<lambda>b. (of_char b :: nat) < 32 \<or> (of_char b :: nat) = 127) s"

text \<open>The unexported \<^verbatim>\<open>parse(rawURL, viaRequest = false)\<close>.\<close>

definition parse_no_fragment :: "string \<Rightarrow> url option" where
  "parse_no_fragment rawURL =
     (if stringContainsCTLByte rawURL then None
      else if rawURL = ''*'' then Some (empty_url\<lparr>Path := ''*''\<rparr>)
      else
        case getScheme rawURL of
          None \<Rightarrow> None
        | Some (scheme, rest0) \<Rightarrow>
            let u0 = empty_url\<lparr>Scheme := ToLower scheme\<rparr>;
                (rest, u1) =
                  (if HasSuffix rest0 ''?'' \<and> count_list rest0 (CHR ''?'') = 1
                   then (take (length rest0 - 1) rest0, u0\<lparr>ForceQuery := True\<rparr>)
                   else (case Cut rest0 ''?'' of (r, q, _) \<Rightarrow> (r, u0\<lparr>RawQuery := q\<rparr>)))
            in
              if \<not> HasPrefix rest ''/'' \<and> Scheme u1 \<noteq> [] then Some (u1\<lparr>Opaque := rest\<rparr>)
              else if \<not> HasPrefix rest ''/'' \<and>
                      Contains (fst (Cut rest ''/'')) '':'' then None
              else if (Scheme u1 \<noteq> [] \<or> \<not> HasPrefix rest ''///'') \<and> HasPrefix rest ''//'' then
                (let authority0 = drop 2 rest in
                 case Index authority0 ''/'' of
                   Some i \<Rightarrow> Some (u1\<lparr>Host := take i authority0, Path := drop i authority0\<rparr>)
                 | None \<Rightarrow> Some (u1\<lparr>Host := authority0, Path := []\<rparr>))
              else if Scheme u1 \<noteq> [] \<and> HasPrefix rest ''/'' then
                Some (u1\<lparr>OmitHost := True, Path := rest\<rparr>)
              else Some (u1\<lparr>Path := rest\<rparr>))"

text \<open>\<^verbatim>\<open>url.Parse\<close>: the fragment is cut off first, the rest is parsed.\<close>

definition url_Parse :: "string \<Rightarrow> url option" where
  "url_Parse rawURL =
     (case Cut rawURL ''#'' of
        (u, frag, _) \<Rightarrow>
          (case parse_no_fragment u of
             None \<Rightarrow> None
           | Some parsed \<Rightarrow> Some (parsed\<lparr>Fragment := frag\<rparr>)))"

definition IsAbs :: "url \<Rightarrow> bool" where
  "IsAbs u = (Scheme u \<noteq> [])"

text \<open>
  \<^verbatim>\<open>resolvePath\<close> (RFC 3986, sections 5.2.2 and 5.2.4): the reference path replaces
  the last segment of the base path unless it starts with a slash, in which case it
  replaces the whole base path; then the dot segments are removed. The library's loop
  takes the elements between slashes one at a time with \<^verbatim>\<open>strings.Cut\<close>.
\<close>

fun split_on :: "char \<Rightarrow> string \<Rightarrow> string list" where
  "split_on sep [] = [[]]"
| "split_on sep (c # cs) =
     (if c = sep then [] # split_on sep cs
      else (case split_on sep cs of
              [] \<Rightarrow> [[c]]
            | e # es \<Rightarrow> (c # e) # es))"

definition resolve_elem :: "string \<times> bool \<Rightarrow> string \<Rightarrow> string \<times> bool" where
  "resolve_elem st elem =
     (case st of (dst, first) \<Rightarrow>
        if elem = ''.'' then (dst, False)
        else if elem = ''..'' then
          (let str = tl dst in
           case LastIndex str ''/'' of
             None \<Rightarrow> (''/'', True)
           | Some index \<Rightarrow> (''/'' @ take index str, first))
        else ((if \<not> first then dst @ ''/'' else dst) @ elem, False))"

definition resolvePath :: "string \<Rightarrow> string \<Rightarrow> string" where
  "resolvePath base ref =
     (let full =
        (if ref = [] then base
         else if hd ref \<noteq> CHR ''/'' then
           (case LastIndex base ''/'' of
              None \<Rightarrow> ref
            | Some i \<Rightarrow> take (i + 1) base @ ref)
         else ref)
      in
        if full = [] then []
        else
          let elems = split_on (CHR ''/'') full;
              dst = fst (foldl resolve_elem (''/'', True) elems);
              r = (if last elems = ''.'' \<or> last elems = ''..'' then dst @ ''/'' else dst)
          in if length r > 1 \<and> r ! 1 = CHR ''/'' then tl r else r)"

definition ResolveReference :: "url \<Rightarrow> url \<Rightarrow> url" where
  "ResolveReference u ref =
     (let url0 = (if Scheme ref = [] then ref\<lparr>Scheme := Scheme u\<rparr> else ref) in
      if Scheme ref \<noteq> [] \<or> Host ref \<noteq> [] then
        url0\<lparr>Path := resolvePath (Path ref) []\<rparr>
      else if Opaque ref \<noteq> [] then
        url0\<lparr>Host := [], Path := []\<rparr>
      else
        let url1 =
              (if Path ref = [] \<and> \<not> ForceQuery ref \<and> RawQuery ref = [] then
                 (if Fragment ref = [] then url0\<lparr>RawQuery := RawQuery u, Fragment := Fragment u\<rparr>
                  else url0\<lparr>RawQuery := RawQuery u\<rparr>)
               else url0)
        in
          if Path ref = [] \<and> Opaque u \<noteq> [] then
            url1\<lparr>Opaque := Opaque u, Host := [], Path := []\<rparr>
          else url1\<lparr>Host := Host u, Path := resolvePath (Path u) (Path ref)\<rparr>)"

text \<open>\<^verbatim>\<open>(*URL).String\<close>: scheme, authority, path, query and fragment put together.\<close>

definition url_String :: "url \<Rightarrow> string" where
  "url_String u =
     (let b1 = (if Scheme u \<noteq> [] then Scheme u @ '':'' else []);
          b2 =
            (if Opaque u \<noteq> [] then b1 @ Opaque u
             else
               let b3 =
                     (if Scheme u \<noteq> [] \<or> Host u \<noteq> [] then
                        (if OmitHost u \<and> Host u = [] then b1
                         else (if Host u \<noteq> [] \<or> Path u \<noteq> [] then b1 @ ''//'' else b1) @ Host u)
                      else b1);
                   b4 = (if Path u \<noteq> [] \<and> hd (Path u) \<noteq> CHR ''/'' \<and> Host u \<noteq> []
                         then b3 @ ''/'' else b3);
                   b5 = (if b4 = [] \<and> Contains (fst (Cut (Path u) ''/'')) '':''
                         then b4 @ ''./'' else b4)
               in b5 @ Path u);
          b6 = (if ForceQuery u \<or> RawQuery u \<noteq> [] then b2 @ ''?'' @ RawQuery u else b2)
      in if Fragment u \<noteq> [] then b6 @ ''#'' @ Fragment u else b6)"

section \<open>validator.go\<close>

text \<open>
  A compiled \<^verbatim>\<open>*regexp.Regexp\<close> is used through \<^verbatim>\<open>MatchString\<close> only, so a
  compiled pattern is modelled as its matching predicate on strings. The base URL of
  the validator is the crawl's base URL.
\<close>

record URLValidator =
  baseURL :: url
  excludePatterns :: "(string \<Rightarrow> bool) list"
  includePatterns :: "(string \<Rightarrow> bool) list"

text \<open>
  \<^verbatim>\<open>NewURLValidator\<close> compiles the patterns in order and fails on the first
  one that does not compile. \<^term>\<open>compile\<close> stands for \<^verbatim>\<open>regexp.Compile\<close>
  (\<^term>\<open>None\<close> is its error).
\<close>

fun compile_all :: "(string \<Rightarrow> (string \<Rightarrow> bool) option) \<Rightarrow> string list \<Rightarrow> (string \<Rightarrow> bool) list option" where
  "compile_all compile [] = Some []"
| "compile_all compile (pattern # patterns) =
     (case compile pattern of
        None \<Rightarrow> None
      | Some re \<Rightarrow> map_option ((#) re) (compile_all compile patterns))"

definition NewURLValidator ::
  "(string \<Rightarrow> (string \<Rightarrow> bool) option) \<Rightarrow> url \<Rightarrow> string list \<Rightarrow> string list \<Rightarrow> URLValidator option" where
  "NewURLValidator compile base excludes includes =
     (case compile_all compile excludes of
        None \<Rightarrow> None
      | Some ex \<Rightarrow>
          (case compile_all compile includes of
             None \<Rightarrow> None
           | Some inc \<Rightarrow> Some \<lparr>baseURL = base, excludePatterns = ex, includePatterns = inc\<rparr>))"

definition nonContentExts :: "string list" where
  "nonContentExts =
     [''.jpg'', ''.jpeg'', ''.png'', ''.gif'', ''.ico'', ''.css'', ''.js'',
      ''.pdf'', ''.doc'', ''.docx'', ''.ppt'', ''.pptx'', ''.xls'', ''.xlsx'',
      ''.zip'', ''.tar'', ''.gz'', ''.rar'', ''.exe'', ''.mp3'', ''.mp4'',
      ''.avi'', ''.mov'', ''.wmv'', ''.flv'', ''.svg'', ''.woff'', ''.woff2'',
      ''.ttf'', ''.eot'']"

definition isNonContentFile :: "string \<Rightarrow> bool" where
  "isNonContentFile path = list_ex (\<lambda>ext. HasSuffix (ToLower path) ext) nonContentExts"

text \<open>
  \<^verbatim>\<open>IsValid\<close>, the admission policy. A \<^verbatim>\<open>*url.URL\<close> held by the queue is
  never nil (\<^verbatim>\<open>Push\<close> reads its host), so the nil test of the first line has no
  branch here. Each loop that returns at the first match is a \<^term>\<open>list_ex\<close>.
\<close>

definition IsValid :: "URLValidator \<Rightarrow> url \<Rightarrow> bool" where
  "IsValid v u =
     (if url_String u = [] then False
      else if Scheme u \<noteq> ''http'' \<and> Scheme u \<noteq> ''https'' then False
      else if Host u \<noteq> Host (baseURL v) then False
      else if isNonContentFile (Path u) then False
      else if list_ex (\<lambda>pattern. pattern (url_String u)) (excludePatterns v) then False
      else if length (includePatterns v) > 0 \<and>
              \<not> list_ex (\<lambda>pattern. pattern (url_String u)) (includePatterns v) then False
      else True)"

text \<open>
  \<^verbatim>\<open>func (v *URLValidator) NormalizePath(path string) string\<close>. The method
  does not read its receiver, so the model takes the path alone. The first
  \<^verbatim>\<open>if\<close> rebinds \<^verbatim>\<open>path\<close>; the second one reads the rebound value.
\<close>

definition NormalizePath :: "string \<Rightarrow> string" where
  "NormalizePath path =
     (let path1 = (if path \<noteq> ''/'' \<and> HasSuffix path ''/'' then TrimSuffix path ''/'' else path)
      in if \<not> HasPrefix path1 ''/'' then ''/'' @ path1 else path1)"

section \<open>queue.go\<close>

record QueueItem =
  URL :: url
  Depth :: int

record URLQueue =
  queue :: "QueueItem list"
  seen :: "string \<rightharpoonup> bool"
  baseHost :: string

definition NewURLQueue :: "url \<Rightarrow> URLQueue" where
  "NewURLQueue base = \<lparr>queue = [], seen = Map.empty, baseHost = Host base\<rparr>"

text \<open>
  \<^verbatim>\<open>Push\<close>: the loop over the batch, under the queue's lock. A URL is skipped when
  its string is already in the seen map or when its host is not the base host;
  otherwise it is marked seen and appended at the given depth.
\<close>

fun Push :: "URLQueue \<Rightarrow> url list \<Rightarrow> int \<Rightarrow> URLQueue" where
  "Push q [] depth = q"
| "Push q (u # urls) depth =
     (if lookup_bool (seen q) (url_String u) then Push q urls depth
      else if Host u \<noteq> baseHost q then Push q urls depth
      else Push (q\<lparr>seen := (seen q)(url_String u \<mapsto> True),
                   queue := queue q @ [\<lparr>URL = u, Depth = depth\<rparr>]\<rparr>) urls depth)"

text \<open>\<^verbatim>\<open>Pop\<close>: the head item and the queue without it, or \<^term>\<open>None\<close> (nil) when empty.\<close>

definition Pop :: "URLQueue \<Rightarrow> QueueItem option \<times> URLQueue" where
  "Pop q =
     (case queue q of
        [] \<Rightarrow> (None, q)
      | item # rest \<Rightarrow> (Some item, q\<lparr>queue := rest\<rparr>))"

definition Len :: "URLQueue \<Rightarrow> nat" where
  "Len q = length (queue q)"

definition HasSeen :: "URLQueue \<Rightarrow> url \<Rightarrow> bool" where
  "HasSeen q u = lookup_bool (seen q) (url_String u)"

text \<open>
  A run of the queue: any sequence of \<^verbatim>\<open>Push\<close> and \<^verbatim>\<open>Pop\<close> calls on a new
  queue, as the crawl makes them. The run returns the queue and the items that
  \<^verbatim>\<open>Pop\<close> handed out, oldest first.
\<close>

datatype queue_op = PushOp "url list" int | PopOp

fun run_ops :: "URLQueue \<times> QueueItem list \<Rightarrow> queue_op list \<Rightarrow> URLQueue \<times> QueueItem list" where
  "run_ops (q, out) [] = (q, out)"
| "run_ops (q, out) (PushOp urls depth # ops) = run_ops (Push q urls depth, out) ops"
| "run_ops (q, out) (PopOp # ops) =
     (case Pop q of
        (None, q') \<Rightarrow> run_ops (q', out) ops
      | (Some item, q') \<Rightarrow> run_ops (q', out @ [item]) ops)"

text \<open>
  What the amended claims say of a batch, in the spec's words: the URLs of the batch
  that are new and on the base host, each once, in the order of their first appearance.
\<close>

fun first_by_string :: "url list \<Rightarrow> url list" where
  "first_by_string [] = []"
| "first_by_string (u # us) =
     u # first_by_string (filter (\<lambda>v. url_String v \<noteq> url_String u) us)"

definition admitted_of_batch :: "URLQueue \<Rightarrow> url list \<Rightarrow> url list" where
  "admitted_of_batch q urls =
     first_by_string
       (filter (\<lambda>u. \<not> lookup_bool (seen q) (url_String u) \<and> Host u = baseHost q) urls)"

section \<open>page.go\<close>

text \<open>
  Times are instants counted from Go's zero time (1 January of year 1, 00:00:00 UTC),
  so \<^verbatim>\<open>IsZero\<close> is the test for 0. Durations are integers too.
\<close>

type_synonym time = int

definition IsZero :: "time \<Rightarrow> bool" where
  "IsZero t = (t = 0)"

datatype error =
    CreateRequestFailed
  | FetchFailed
  | UnexpectedStatus int
  | ParseHTMLFailed

record Page =
  URL :: url
  Depth :: int
  LastModified :: time
  Links :: "url list"
  Error :: "error option"

definition NewPage :: "url \<Rightarrow> int \<Rightarrow> Page" where
  "NewPage pageURL depth =
     \<lparr>Page.URL = pageURL, Page.Depth = depth, LastModified = 0, Links = [], Error = None\<rparr>"


text \<open>
  \<^verbatim>\<open>normalizeURL\<close>: \<^term>\<open>None\<close> is the nil result. The scheme test at the end
  reads the URL after resolution.
\<close>

definition normalizeURL :: "Page \<Rightarrow> string \<Rightarrow> url option" where
  "normalizeURL p rawURL =
     (let rawURL1 = (case Index rawURL ''#'' of Some idx \<Rightarrow> take idx rawURL | None \<Rightarrow> rawURL) in
      if rawURL1 = [] \<or> HasPrefix rawURL1 ''javascript:'' then None
      else
        case url_Parse rawURL1 of
          None \<Rightarrow> None
        | Some parsedURL \<Rightarrow>
            let parsedURL1 = (if \<not> IsAbs parsedURL then ResolveReference (Page.URL p) parsedURL
                              else parsedURL);
                parsedURL2 = (if Scheme parsedURL1 = [] then parsedURL1\<lparr>Scheme := ''https''\<rparr>
                              else parsedURL1)
            in Some parsedURL2)"

text \<open>
  \<^verbatim>\<open>uniqueURLs\<close>: the loop with its two accumulators, the map of the strings
  met so far and the list built so far.
\<close>

fun uniqueURLs_loop :: "(string \<rightharpoonup> bool) \<Rightarrow> url list \<Rightarrow> url list \<Rightarrow> url list" where
  "uniqueURLs_loop seen_keys unique [] = unique"
| "uniqueURLs_loop seen_keys unique (u # urls) =
     (let key = url_String u in
      if \<not> lookup_bool seen_keys key
      then uniqueURLs_loop (seen_keys(key \<mapsto> True)) (unique @ [u]) urls
      else uniqueURLs_loop seen_keys unique urls)"

definition uniqueURLs :: "url list \<Rightarrow> url list" where
  "uniqueURLs urls = uniqueURLs_loop Map.empty [] urls"

text \<open>
  The parsed document of \<^verbatim>\<open>golang.org/x/net/html\<close>: a node has a type, its data
  (the tag name of an element), its attributes as key and value, and its children in
  document order.
\<close>

datatype NodeType = ErrorNode | TextNode | DocumentNode | ElementNode | CommentNode | DoctypeNode

datatype Node = Node NodeType string "(string \<times> string) list" "Node list"

text \<open>
  An anchor gives the first \<^verbatim>\<open>href\<close> attribute (the loop breaks there). For
  a \<^verbatim>\<open>link\<close> element the loop runs over all attributes, so the last \<^verbatim>\<open>rel\<close>
  and the last \<^verbatim>\<open>href\<close> count.
\<close>

definition first_attr :: "string \<Rightarrow> (string \<times> string) list \<Rightarrow> string option" where
  "first_attr key attrs = map_option snd (find (\<lambda>a. fst a = key) attrs)"

definition last_attr :: "string \<Rightarrow> (string \<times> string) list \<Rightarrow> string" where
  "last_attr key attrs = foldl (\<lambda>val a. if fst a = key then snd a else val) [] attrs"

definition anchor_links :: "Page \<Rightarrow> (string \<times> string) list \<Rightarrow> url list" where
  "anchor_links p attrs =
     (case first_attr ''href'' attrs of
        None \<Rightarrow> []
      | Some val \<Rightarrow> (case normalizeURL p val of None \<Rightarrow> [] | Some link \<Rightarrow> [link]))"

definition link_links :: "Page \<Rightarrow> (string \<times> string) list \<Rightarrow> url list" where
  "link_links p attrs =
     (let rel = last_attr ''rel'' attrs; href = last_attr ''href'' attrs in
      if (rel = ''canonical'' \<or> rel = ''alternate'') \<and> href \<noteq> [] then
        (case normalizeURL p href of None \<Rightarrow> [] | Some link \<Rightarrow> [link])
      else [])"

fun traverse :: "Page \<Rightarrow> Node \<Rightarrow> url list" where
  "traverse p (Node ty data attrs children) =
     (if ty = ElementNode then
        (if data = ''a'' then anchor_links p attrs else []) @
        (if data = ''link'' then link_links p attrs else [])
      else []) @
     concat (map (traverse p) children)"

text \<open>
  The response of \<^verbatim>\<open>client.Do\<close>, after the client has followed redirects: the
  final status, the \<^verbatim>\<open>Last-Modified\<close> header (empty when absent, as
  \<^verbatim>\<open>Header.Get\<close> returns it) and the body as \<^verbatim>\<open>html.Parse\<close> reads it
  (\<^term>\<open>None\<close> when the parser fails).
\<close>

record Response =
  StatusCode :: int
  LastModifiedHeader :: string
  Body :: "Node option"

datatype http_outcome = NewRequestError | DoError | Responded Response

text \<open>
  The world outside the program: what a GET of a URL string gives, and the library's
  \<^verbatim>\<open>time.Parse(time.RFC1123, _)\<close> (\<^term>\<open>None\<close> is its error).
\<close>

record world =
  http_get :: "string \<Rightarrow> http_outcome"
  parse_RFC1123 :: "string \<Rightarrow> time option"

definition parseHTML :: "Page \<Rightarrow> Node option \<Rightarrow> Page \<times> error option" where
  "parseHTML p body =
     (case body of
        None \<Rightarrow> (p, Some ParseHTMLFailed)
      | Some doc \<Rightarrow> (p\<lparr>Links := uniqueURLs (traverse p doc)\<rparr>, None))"

text \<open>
  \<^verbatim>\<open>Process\<close> returns the page as it leaves it and the error (\<^term>\<open>None\<close> is
  nil). \<^term>\<open>now\<close> is what \<^verbatim>\<open>time.Now()\<close> gives when the call is reached.
\<close>

definition Process :: "world \<Rightarrow> time \<Rightarrow> Page \<Rightarrow> Page \<times> error option" where
  "Process w now p =
     (case http_get w (url_String (Page.URL p)) of
        NewRequestError \<Rightarrow> (p, Some CreateRequestFailed)
      | DoError \<Rightarrow> (p, Some FetchFailed)
      | Responded resp \<Rightarrow>
          if StatusCode resp \<noteq> 200 then (p, Some (UnexpectedStatus (StatusCode resp)))
          else
            let p1 = (if LastModifiedHeader resp \<noteq> [] then
                        (case parse_RFC1123 w (LastModifiedHeader resp) of
                           Some t \<Rightarrow> p\<lparr>LastModified := t\<rparr>
                         | None \<Rightarrow> p)
                      else p);
                p2 = (if IsZero (LastModified p1) then p1\<lparr>LastModified := now\<rparr> else p1)
            in parseHTML p2 (Body resp))"

section \<open>config.go\<close>

text \<open>
  The configuration. \<^verbatim>\<open>BaseURL\<close> is a pointer that may be nil, so it is an
  option. Durations are in nanoseconds (\<^verbatim>\<open>time.Second\<close> is \<open>10\<^sup>9\<close>).
\<close>

record Config =
  BaseURL :: "url option"
  MaxDepth :: int
  MaxConcurrent :: int
  RequestTimeout :: int
  RateLimit :: int
  UserAgent :: string
  FollowRedirects :: bool
  ExcludePatterns :: "string list"
  IncludePatterns :: "string list"

datatype config_error =
    BaseURLRequired
  | MaxDepthNegative
  | MaxConcurrentTooSmall
  | RequestTimeoutTooSmall
  | RateLimitNegative
  | UserAgentRequired
  | ValidatorFailed

definition Validate :: "Config \<Rightarrow> config_error option" where
  "Validate c =
     (if BaseURL c = None then Some BaseURLRequired
      else if MaxDepth c < 0 then Some MaxDepthNegative
      else if MaxConcurrent c < 1 then Some MaxConcurrentTooSmall
      else if RequestTimeout c < 1000000000 then Some RequestTimeoutTooSmall
      else if RateLimit c < 0 then Some RateLimitNegative
      else if UserAgent c = [] then Some UserAgentRequired
      else None)"

section \<open>crawler.go\<close>

record Result =
  URL :: string
  LastMod :: time
  StatusCode :: int
  Error :: "error option"
  Depth :: int
  TimeToFetch :: int

text \<open>
  A worker goroutine is at one of four places: at the top of its loop, inside
  \<^verbatim>\<open>page.Process\<close> for the item it popped, after the send of the Result and before
  the \<^verbatim>\<open>Push\<close> of the page's links, or returned.
\<close>

datatype goroutine =
    AtLoopTop
  | InProcess QueueItem
  | AfterSend QueueItem Page "error option"
  | Returned

text \<open>
  The crawler: the fields of the Go struct (the queue and the statistics are shared
  by the workers; \<^term>\<open>results\<close> is the sequence of values sent on the unbuffered
  channel, oldest first, which the consumer reads to its end), and the running system
  around it: whether the context is cancelled, the worker goroutines, and two traces,
  the items that \<^verbatim>\<open>Pop\<close> handed to workers and the URL strings given to
  \<^verbatim>\<open>page.Process\<close>, each oldest first.
\<close>

record Crawler =
  config :: Config
  queue :: URLQueue
  validator :: URLValidator
  processed :: int
  errors :: int
  results :: "Result list"
  ctx_done :: bool
  goroutines :: "goroutine list"
  popped :: "QueueItem list"
  requests :: "string list"

text \<open>\<^verbatim>\<open>NewCrawler\<close>; \<^term>\<open>compile\<close> stands for \<^verbatim>\<open>regexp.Compile\<close>.\<close>

definition NewCrawler ::
  "(string \<Rightarrow> (string \<Rightarrow> bool) option) \<Rightarrow> Config \<Rightarrow> config_error + Crawler" where
  "NewCrawler compile cfg =
     (case Validate cfg of
        Some e \<Rightarrow> Inl e
      | None \<Rightarrow>
          (case BaseURL cfg of
             None \<Rightarrow> Inl BaseURLRequired
           | Some base \<Rightarrow>
               (case NewURLValidator compile base (ExcludePatterns cfg) (IncludePatterns cfg) of
                  None \<Rightarrow> Inl ValidatorFailed
                | Some v \<Rightarrow>
                    Inr \<lparr>config = cfg, queue = NewURLQueue base, validator = v,
                         processed = 0, errors = 0, results = [], ctx_done = False,
                         goroutines = [], popped = [], requests = []\<rparr>)))"

text \<open>
  \<^verbatim>\<open>Start\<close> pushes the base URL at depth 0 and starts \<^verbatim>\<open>MaxConcurrent\<close>
  workers.
\<close>

definition Start :: "Crawler \<Rightarrow> Crawler" where
  "Start c =
     (case BaseURL (config c) of
        None \<Rightarrow> c
      | Some base \<Rightarrow>
          c\<lparr>queue := Push (queue c) [base] 0,
             goroutines := replicate (nat (MaxConcurrent (config c))) AtLoopTop\<rparr>)"

text \<open>
  The worker's loop, cut at the points where it touches what the workers share. The
  first part runs from the top of the loop to the call of \<^verbatim>\<open>Process\<close>: the
  \<^verbatim>\<open>select\<close> on the context, \<^verbatim>\<open>Pop\<close>, and the two tests that skip an item.
\<close>

datatype taken = Exit | Skip | Fetch QueueItem

definition worker_take :: "Crawler \<Rightarrow> taken \<times> Crawler" where
  "worker_take c =
     (if ctx_done c then (Exit, c)
      else
        case Pop (queue c) of
          (None, q) \<Rightarrow> (Exit, c)
        | (Some item, q) \<Rightarrow>
            let c1 = c\<lparr>queue := q, popped := popped c @ [item]\<rparr> in
            if \<not> IsValid (validator c) (QueueItem.URL item) then (Skip, c1)
            else if QueueItem.Depth item > MaxDepth (config c) then (Skip, c1)
            else (Fetch item, c1))"

text \<open>
  The second part: \<^verbatim>\<open>Process\<close>, the statistics and the send of the Result.
  \<^verbatim>\<open>Process\<close> reads nothing that the workers share, so it is placed where its
  outcome is used. \<^term>\<open>duration\<close> is the measured \<^verbatim>\<open>time.Since(start)\<close>.
\<close>

definition worker_process ::
  "world \<Rightarrow> time \<Rightarrow> int \<Rightarrow> QueueItem \<Rightarrow> Crawler \<Rightarrow> (Page \<times> error option) \<times> Crawler" where
  "worker_process w now duration item c =
     (case Process w now (NewPage (QueueItem.URL item) (QueueItem.Depth item)) of
        (page, err) \<Rightarrow>
          ((page, err),
           c\<lparr>requests := requests c @ [url_String (QueueItem.URL item)],
              processed := processed c + 1,
              errors := (if err \<noteq> None then errors c + 1 else errors c),
              results := results c @
                [\<lparr>Result.URL = url_String (QueueItem.URL item),
                  LastMod = LastModified page,
                  StatusCode = 200,
                  Result.Error = err,
                  Result.Depth = QueueItem.Depth item,
                  TimeToFetch = duration\<rparr>]\<rparr>))"

text \<open>The third part: the links of a page that was processed without error are pushed.\<close>

definition worker_push :: "QueueItem \<Rightarrow> Page \<Rightarrow> error option \<Rightarrow> Crawler \<Rightarrow> Crawler" where
  "worker_push item page err c =
     (if err = None then c\<lparr>queue := Push (queue c) (Links page) (QueueItem.Depth item + 1)\<rparr>
      else c)"

text \<open>
  One step of worker \<^term>\<open>i\<close>; \<^term>\<open>None\<close> when the worker does not exist or has
  returned. The rate-limit sleep at the end of an iteration changes nothing.
\<close>

definition set_goroutine :: "nat \<Rightarrow> goroutine \<Rightarrow> Crawler \<Rightarrow> Crawler" where
  "set_goroutine i g c = c\<lparr>goroutines := (goroutines c)[i := g]\<rparr>"

definition worker_step :: "world \<Rightarrow> time \<Rightarrow> int \<Rightarrow> nat \<Rightarrow> Crawler \<Rightarrow> Crawler option" where
  "worker_step w now duration i c =
     (if length (goroutines c) \<le> i then None
      else
        case goroutines c ! i of
          Returned \<Rightarrow> None
        | AtLoopTop \<Rightarrow>
            (case worker_take c of
               (Exit, c') \<Rightarrow> Some (set_goroutine i Returned c')
             | (Skip, c') \<Rightarrow> Some c'
             | (Fetch item, c') \<Rightarrow> Some (set_goroutine i (InProcess item) c'))
        | InProcess item \<Rightarrow>
            (case worker_process w now duration item c of
               ((page, err), c') \<Rightarrow> Some (set_goroutine i (AfterSend item page err) c'))
        | AfterSend item page err \<Rightarrow>
            Some (set_goroutine i AtLoopTop (worker_push item page err c)))"

text \<open>
  An execution is a sequence of events: a step of one worker (with the clock readings
  the step takes), or the cancellation of the context, which happens at most once. The
  events are interleaved in any order; an event that cannot happen gives \<^term>\<open>None\<close>.
\<close>

datatype event = Cancel | Step nat time int

definition do_event :: "world \<Rightarrow> event \<Rightarrow> Crawler \<Rightarrow> Crawler option" where
  "do_event w ev c =
     (case ev of
        Cancel \<Rightarrow> (if ctx_done c then None else Some (c\<lparr>ctx_done := True\<rparr>))
      | Step i now duration \<Rightarrow> worker_step w now duration i c)"

fun run :: "world \<Rightarrow> event list \<Rightarrow> Crawler \<Rightarrow> Crawler option" where
  "run w [] c = Some c"
| "run w (ev # evs) c =
     (case do_event w ev c of
        None \<Rightarrow> None
      | Some c' \<Rightarrow> run w evs c')"

definition all_returned :: "Crawler \<Rightarrow> bool" where
  "all_returned c = list_all (\<lambda>g. g = Returned) (goroutines c)"

text \<open>
  The links of the page at a URL, as a successful \<^verbatim>\<open>Process\<close> leaves them (empty
  when the fetch fails), and what makes a set of URLs a finite link graph for the crawl:
  it holds the links, on the base host, of each of its pages.
\<close>

definition page_links :: "world \<Rightarrow> url \<Rightarrow> url list" where
  "page_links w u = Links (fst (Process w 0 (NewPage u 0)))"

definition link_closed :: "world \<Rightarrow> string \<Rightarrow> url set \<Rightarrow> bool" where
  "link_closed w host U =
     (\<forall>u\<in>U. \<forall>l\<in>set (page_links w u). Host l = host \<longrightarrow> l \<in> U)"

text \<open>An item passes the two tests a worker makes after \<^verbatim>\<open>Pop\<close>.\<close>

definition fetchable :: "Crawler \<Rightarrow> QueueItem \<Rightarrow> bool" where
  "fetchable c item =
     (IsValid (validator c) (QueueItem.URL item) \<and> QueueItem.Depth item \<le> MaxDepth (config c))"

text \<open>The string under which the queue knows an item.\<close>

definition item_key :: "QueueItem \<Rightarrow> string" where
  "item_key item = url_String (QueueItem.URL item)"

text \<open>
  The time that \<^verbatim>\<open>Process\<close> leaves in \<^verbatim>\<open>LastModified\<close> after a response with
  status 200, from the time \<^term>\<open>t0\<close> the page held before: the parsed header when
  there is one and it parses, and \<^term>\<open>now\<close> when that time is the zero time.
\<close>

definition stamped :: "world \<Rightarrow> time \<Rightarrow> Response \<Rightarrow> time \<Rightarrow> time" where
  "stamped w now resp t0 =
     (let t = (if LastModifiedHeader resp \<noteq> [] then
                 (case parse_RFC1123 w (LastModifiedHeader resp) of Some t \<Rightarrow> t | None \<Rightarrow> t0)
               else t0)
      in if IsZero t then now else t)"

text \<open>
  The items that workers hold: inside \<^verbatim>\<open>Process\<close>, and between the send of the
  Result and the \<^verbatim>\<open>Push\<close> (with the page and the error of the fetch).
\<close>

fun held_item :: "goroutine \<Rightarrow> QueueItem multiset" where
  "held_item (InProcess item) = {#item#}"
| "held_item g = {#}"

fun sent_item :: "goroutine \<Rightarrow> (QueueItem \<times> Page \<times> error option) multiset" where
  "sent_item (AfterSend item page err) = {#(item, page, err)#}"
| "sent_item g = {#}"

fun weight :: "goroutine \<Rightarrow> nat" where
  "weight Returned = 0"
| "weight AtLoopTop = 1"
| "weight (AfterSend item page err) = 2"
| "weight (InProcess item) = 3"

definition in_process :: "Crawler \<Rightarrow> QueueItem multiset" where
  "in_process c = sum_mset (image_mset held_item (mset (goroutines c)))"

definition after_send :: "Crawler \<Rightarrow> (QueueItem \<times> Page \<times> error option) multiset" where
  "after_send c = sum_mset (image_mset sent_item (mset (goroutines c)))"

text \<open>
  The invariant of a run of the queue: the strings of the items handed out and of the
  items still queued are pairwise different, and all of them are marked seen.
\<close>

definition queue_inv :: "URLQueue \<Rightarrow> QueueItem list \<Rightarrow> bool" where
  "queue_inv q out =
     (distinct (map (\<lambda>it. url_String (QueueItem.URL it)) (out @ URLQueue.queue q)) \<and>
      list_all (\<lambda>it. lookup_bool (seen q) (url_String (QueueItem.URL it))) (out @ URLQueue.queue q))"

section \<open>Invariants of a crawl\<close>

text \<open>
  What holds in every state of an execution, for the crawl of the base URL
  \<^term>\<open>seed\<close>. An item and a Result are identified by the URL string and the depth.
\<close>

definition inv_queue :: "url \<Rightarrow> Crawler \<Rightarrow> bool" where
  "inv_queue seed c =
     (baseHost (queue c) = Host seed \<and>
      queue_inv (queue c) (popped c) \<and>
      (\<forall>k. lookup_bool (seen (queue c)) k \<longrightarrow>
           k \<in> item_key ` set (popped c @ URLQueue.queue (queue c))) \<and>
      lookup_bool (seen (queue c)) (url_String seed))"

definition item_id :: "QueueItem \<Rightarrow> string \<times> int" where
  "item_id item = (item_key item, QueueItem.Depth item)"

definition result_id :: "Result \<Rightarrow> string \<times> int" where
  "result_id r = (Result.URL r, Result.Depth r)"

definition inv_results :: "world \<Rightarrow> Crawler \<Rightarrow> bool" where
  "inv_results w c =
     (image_mset item_id (in_process c) + mset (map result_id (results c)) =
        mset (map item_id (filter (fetchable c) (popped c))) \<and>
      requests c = map Result.URL (results c) \<and>
      (\<forall>item. item \<in># in_process c \<longrightarrow> item \<in> set (popped c) \<and> fetchable c item) \<and>
      (\<forall>item page err. (item, page, err) \<in># after_send c \<longrightarrow>
         item \<in> set (popped c) \<and> fetchable c item \<and>
         Links page = page_links w (QueueItem.URL item) \<and>
         (err \<noteq> None \<longrightarrow> page_links w (QueueItem.URL item) = [])))"

definition inv_closure :: "world \<Rightarrow> url \<Rightarrow> Crawler \<Rightarrow> bool" where
  "inv_closure w seed c =
     (\<forall>item\<in>set (popped c).
        fetchable c item \<longrightarrow> item \<notin># in_process c \<longrightarrow> item \<notin> fst ` set_mset (after_send c) \<longrightarrow>
        (\<forall>l\<in>set (page_links w (QueueItem.URL item)).
           Host l = Host seed \<longrightarrow> lookup_bool (seen (queue c)) (url_String l)))"

definition inv_live :: "Crawler \<Rightarrow> bool" where
  "inv_live c = (\<not> ctx_done c \<and> URLQueue.queue (queue c) \<noteq> [] \<longrightarrow> \<not> all_returned c)"

definition inv_depth :: "url \<Rightarrow> Crawler \<Rightarrow> bool" where
  "inv_depth seed c =
     (\<lparr>QueueItem.URL = seed, QueueItem.Depth = 0\<rparr> \<in> set (popped c @ URLQueue.queue (queue c)) \<and>
      (\<forall>item\<in>set (popped c @ URLQueue.queue (queue c)).
        0 \<le> QueueItem.Depth item \<and> QueueItem.Depth item \<le> MaxDepth (config c) + 1 \<and>
        (QueueItem.Depth item = 0 \<longrightarrow> QueueItem.URL item = seed)))"

definition crawl_inv :: "world \<Rightarrow> url \<Rightarrow> Crawler \<Rightarrow> bool" where
  "crawl_inv w seed c =
     (inv_queue seed c \<and> inv_results w c \<and> inv_closure w seed c \<and> inv_live c \<and>
      inv_depth seed c)"

section \<open>A small site, for the worked examples\<close>

definition example_base :: url where
  "example_base = \<lparr>Scheme = ''https'', Opaque = [], Host = ''example.com'', Path = ''/'',
     OmitHost = False, ForceQuery = False, RawQuery = [], Fragment = []\<rparr>"

definition example_validator :: URLValidator where
  "example_validator = \<lparr>baseURL = example_base, excludePatterns = [], includePatterns = []\<rparr>"

definition example_a :: url where
  "example_a = \<lparr>Scheme = ''https'', Opaque = [], Host = ''example.com'', Path = ''/a'',
     OmitHost = False, ForceQuery = False, RawQuery = [], Fragment = []\<rparr>"

definition example_doc :: Node where
  "example_doc =
     Node DocumentNode [] []
       [Node ElementNode ''html'' []
          [Node ElementNode ''body'' []
             [Node ElementNode ''a'' [(''href'', ''/a'')] [Node TextNode ''A'' [] []]]]]"

definition example_item :: QueueItem where
  "example_item = \<lparr>QueueItem.URL = example_base, QueueItem.Depth = 0\<rparr>"

definition example_crawler :: Crawler where
  "example_crawler =
     \<lparr>config = \<lparr>BaseURL = Some example_base, MaxDepth = 1, MaxConcurrent = 2,
                 RequestTimeout = 10000000000, RateLimit = 0, UserAgent = ''Mapper/1.0'',
                 FollowRedirects = True, ExcludePatterns = [], IncludePatterns = []\<rparr>,
      queue = \<lparr>URLQueue.queue = [], seen = [''https://example.com/'' \<mapsto> True],
                baseHost = ''example.com''\<rparr>,
      validator = example_validator,
      processed = 0, errors = 0, results = [], ctx_done = False,
      goroutines = [InProcess example_item, AtLoopTop],
      popped = [example_item], requests = []\<rparr>"

definition world_404 :: world where
  "world_404 =
     \<lparr>http_get = (\<lambda>s. Responded \<lparr>Response.StatusCode = 404, LastModifiedHeader = [],
                                    Body = Some example_doc\<rparr>),
      parse_RFC1123 = (\<lambda>s. None)\<rparr>"

definition world_zero_date :: world where
  "world_zero_date =
     \<lparr>http_get = (\<lambda>s. Responded \<lparr>Response.StatusCode = 200,
                                    LastModifiedHeader = ''Mon, 01 Jan 0001 00:00:00 UTC'',
                                    Body = Some example_doc\<rparr>),
      parse_RFC1123 = (\<lambda>s. if s = ''Mon, 01 Jan 0001 00:00:00 UTC'' then Some 0 else None)\<rparr>"

definition example_config :: "int \<Rightarrow> Config" where
  "example_config depth =
     \<lparr>BaseURL = Some example_base, MaxDepth = depth, MaxConcurrent = 2,
      RequestTimeout = 10000000000, RateLimit = 0, UserAgent = ''Mapper/1.0'',
      FollowRedirects = True, ExcludePatterns = [], IncludePatterns = []\<rparr>"

definition example_new :: "int \<Rightarrow> Crawler" where
  "example_new depth =
     \<lparr>config = example_config depth, queue = NewURLQueue example_base,
      validator = example_validator,
      processed = 0, errors = 0, results = [], ctx_done = False,
      goroutines = [], popped = [], requests = []\<rparr>"

definition doc_a :: Node where
  "doc_a = Node DocumentNode [] [] [Node ElementNode ''a'' [(''href'', ''/'')] []]"

definition world_site :: world where
  "world_site =
     \<lparr>http_get = (\<lambda>s. if s = ''https://example.com/''
                      then Responded \<lparr>Response.StatusCode = 200, LastModifiedHeader = [],
                                      Body = Some example_doc\<rparr>
                      else if s = ''https://example.com/a''
                      then Responded \<lparr>Response.StatusCode = 200, LastModifiedHeader = [],
                                      Body = Some doc_a\<rparr>
                      else DoError),
      parse_RFC1123 = (\<lambda>s. None)\<rparr>"

definition example_a_item :: QueueItem where
  "example_a_item = \<lparr>QueueItem.URL = example_a, QueueItem.Depth = 1\<rparr>"

definition skip_run :: "event list" where
  "skip_run = [Step 0 10 1, Step 1 10 1, Step 0 20 1, Step 0 30 1, Step 0 30 1, Step 0 40 1]"

definition full_run :: "event list" where
  "full_run = [Step 0 10 1, Step 1 10 1, Step 0 20 1, Step 0 30 1, Step 0 30 1, Step 0 40 1,
               Step 0 50 1, Step 0 50 1]"

text \<open>
  Schedules of the two workers on the small site: worker 0 takes the seed, fetches it and
  pushes its link (\<open>push_run\<close>); the same with worker 1 looking at the queue while
  worker 0 is fetching (\<open>early_exit_run\<close>, \<open>late_push_run\<close>).
\<close>

definition push_run :: "event list" where
  "push_run = [Step 0 10 1, Step 0 20 1, Step 0 30 1]"

definition early_exit_run :: "event list" where
  "early_exit_run = [Step 0 10 1, Step 1 10 1]"

definition late_push_run :: "event list" where
  "late_push_run = [Step 0 10 1, Step 1 10 1, Step 0 20 1, Step 0 30 1]"



section \<open>Properties of NormalizePath\<close>

lemma HasSuffix_slash_iff: "HasSuffix s ''/'' \<longleftrightarrow> s \<noteq> [] \<and> last s = CHR ''/''"
proof (cases s rule: rev_cases)
  case Nil
  then show ?thesis by (simp add: HasSuffix_def)
next
  case (snoc ys y)
  then show ?thesis by (simp add: HasSuffix_def)
qed

lemma HasSuffix_two_slashes_iff:
  "HasSuffix s ''//'' \<longleftrightarrow> (\<exists>t. s = t @ ''//'')"
proof
  assume h: "HasSuffix s ''//''"
  then have "s = take (length s - 2) s @ ''//''"
    by (metis HasSuffix_def append_take_drop_id length_Cons list.size(3) numeral_2_eq_2)
  then show "\<exists>t. s = t @ ''//''" by blast
next
  assume "\<exists>t. s = t @ ''//''"
  then show "HasSuffix s ''//''" by (auto simp: HasSuffix_def)
qed

lemma HasPrefix_slash_iff: "HasPrefix s ''/'' \<longleftrightarrow> (\<exists>t. s = CHR ''/'' # t)"
  by (cases s) (auto simp: HasPrefix_def)

lemma TrimSuffix_slash_snoc: "TrimSuffix (t @ ''/'') ''/'' = t"
  by (simp add: TrimSuffix_def HasSuffix_def)

lemma NormalizePath_starts_with_slash: "HasPrefix (NormalizePath p) ''/''"
  by (auto simp: NormalizePath_def Let_def HasPrefix_slash_iff)

lemma NormalizePath_fixed:
  assumes "HasPrefix r ''/''" and "r = ''/'' \<or> \<not> HasSuffix r ''/''"
  shows "NormalizePath r = r"
  using assms by (auto simp: NormalizePath_def Let_def)

lemma NormalizePath_no_trailing_slash:
  assumes "\<not> HasSuffix p ''//''"
  shows "NormalizePath p = ''/'' \<or> \<not> HasSuffix (NormalizePath p) ''/''"
proof (cases "p \<noteq> ''/'' \<and> HasSuffix p ''/''")
  case True
  then obtain t where t: "p = t @ ''/''"
    by (metis HasSuffix_slash_iff append_butlast_last_id)
  from assms t have nt: "\<not> HasSuffix t ''/''"
    by (auto simp: HasSuffix_two_slashes_iff HasSuffix_slash_iff)
      (metis append_butlast_last_id append.assoc append_Cons append_Nil)
  from True t have tne: "t \<noteq> []" by auto
  have "NormalizePath p = (if \<not> HasPrefix t ''/'' then ''/'' @ t else t)"
    using True t by (simp add: NormalizePath_def Let_def TrimSuffix_slash_snoc)
  with nt tne show ?thesis
    by (auto simp: HasSuffix_slash_iff)
next
  case False
  then have "NormalizePath p = (if \<not> HasPrefix p ''/'' then ''/'' @ p else p)"
    by (auto simp: NormalizePath_def Let_def)
  with False show ?thesis
    by (auto simp: HasSuffix_slash_iff HasPrefix_slash_iff)
qed

text \<open>
  Where the property of C10 does hold: the result always starts with a slash, and for
  an input that is \<^verbatim>\<open>"//"\<close> or does not end in two slashes the result has no
  trailing slash unless it is the root path, and normalising twice is normalising once.
\<close>

lemma NormalizePath_two_slashes: "NormalizePath ''//'' = ''/''"
  by (simp add: NormalizePath_def HasSuffix_def HasPrefix_def TrimSuffix_def)

lemma NormalizePath_ok_without_double_slash:
  assumes "p = ''//'' \<or> \<not> HasSuffix p ''//''"
  shows "HasPrefix (NormalizePath p) ''/'' \<and>
         (NormalizePath p = ''/'' \<or> \<not> HasSuffix (NormalizePath p) ''/'') \<and>
         NormalizePath (NormalizePath p) = NormalizePath p"
proof (cases "p = ''//''")
  case True
  then show ?thesis
    by (simp add: NormalizePath_two_slashes)
      (simp add: NormalizePath_def HasSuffix_def HasPrefix_def TrimSuffix_def)
next
  case False
  with assms have "\<not> HasSuffix p ''//''" by simp
  then show ?thesis
    using NormalizePath_starts_with_slash NormalizePath_no_trailing_slash NormalizePath_fixed
    by blast
qed

text \<open>
  C10. The code at the input \<^verbatim>\<open>"a//"\<close>: \<^verbatim>\<open>TrimSuffix\<close> removes one slash
  only and a slash is put in front, so the result \<^verbatim>\<open>"/a/"\<close> is not the root path
  and still ends in a slash, and a second call changes it to \<^verbatim>\<open>"/a"\<close>. The
  claim (no trailing slash unless the path is the root; idempotent) fails there,
  against the comment of the code itself ("Remove trailing slash unless it's the root
  path").
\<close>

theorem NormalizePath_double_slash_kept:
  "NormalizePath ''a//'' = ''/a/'' \<and>
   NormalizePath ''a//'' \<noteq> ''/'' \<and>
   HasSuffix (NormalizePath ''a//'') ''/'' \<and>
   NormalizePath (NormalizePath ''a//'') = ''/a'' \<and>
   NormalizePath (NormalizePath ''a//'') \<noteq> NormalizePath ''a//''"
  by (simp add: NormalizePath_def HasSuffix_def HasPrefix_def TrimSuffix_def)

section \<open>Properties of the queue\<close>

lemma first_by_string_subset: "set (first_by_string us) \<subseteq> set us"
  by (induction us rule: first_by_string.induct) auto

lemma first_by_string_keys: "url_String ` set (first_by_string us) = url_String ` set us"
proof (induction us rule: first_by_string.induct)
  case 1
  then show ?case by simp
next
  case (2 u us)
  then show ?case by auto
qed

lemma first_by_string_distinct: "distinct (map url_String (first_by_string us))"
proof (induction us rule: first_by_string.induct)
  case 1
  then show ?case by simp
next
  case (2 u us)
  have "url_String u \<notin> url_String ` set (filter (\<lambda>v. url_String v \<noteq> url_String u) us)"
    by auto
  with 2 show ?case by (simp add: first_by_string_keys del: set_filter)
qed

lemma admitted_of_batch_Nil: "admitted_of_batch q [] = []"
  by (simp add: admitted_of_batch_def)

lemma admitted_of_batch_skip:
  "lookup_bool (seen q) (url_String u) \<or> Host u \<noteq> baseHost q \<Longrightarrow>
   admitted_of_batch q (u # urls) = admitted_of_batch q urls"
  by (auto simp: admitted_of_batch_def)

lemma admitted_of_batch_take:
  assumes "\<not> lookup_bool (seen q) (url_String u)" and "Host u = baseHost q"
  shows "admitted_of_batch q (u # urls) =
         u # admitted_of_batch
               (q\<lparr>seen := (seen q)(url_String u \<mapsto> True), URLQueue.queue := URLQueue.queue q @ [it]\<rparr>) urls"
proof -
  have "filter (\<lambda>v. url_String v \<noteq> url_String u)
          (filter (\<lambda>v. \<not> lookup_bool (seen q) (url_String v) \<and> Host v = baseHost q) urls) =
        filter (\<lambda>v. \<not> lookup_bool ((seen q)(url_String u \<mapsto> True)) (url_String v) \<and> Host v = baseHost q) urls"
    by (auto simp: lookup_bool_def intro!: filter_cong)
  with assms show ?thesis by (simp add: admitted_of_batch_def)
qed

lemma Push_queue:
  "URLQueue.queue (Push q urls depth) =
   URLQueue.queue q @ map (\<lambda>u. \<lparr>QueueItem.URL = u, QueueItem.Depth = depth\<rparr>) (admitted_of_batch q urls)"
proof (induction urls arbitrary: q)
  case Nil
  then show ?case by (simp add: admitted_of_batch_Nil)
next
  case (Cons u urls)
  show ?case
  proof (cases "lookup_bool (seen q) (url_String u) \<or> Host u \<noteq> baseHost q")
    case True
    then show ?thesis using Cons admitted_of_batch_skip [of q u urls] by auto
  next
    case False
    then have "admitted_of_batch q (u # urls) =
        u # admitted_of_batch
              (q\<lparr>seen := (seen q)(url_String u \<mapsto> True),
                 URLQueue.queue := URLQueue.queue q @ [\<lparr>QueueItem.URL = u, QueueItem.Depth = depth\<rparr>]\<rparr>) urls"
      by (intro admitted_of_batch_take) auto
    with False show ?thesis
      using Cons by simp
  qed
qed

lemma Push_baseHost: "baseHost (Push q urls depth) = baseHost q"
  by (induction urls arbitrary: q) auto

lemma Push_seen:
  "lookup_bool (seen (Push q urls depth)) k \<longleftrightarrow>
   lookup_bool (seen q) k \<or> (\<exists>u\<in>set urls. url_String u = k \<and> Host u = baseHost q)"
proof (induction urls arbitrary: q)
  case Nil
  then show ?case by simp
next
  case (Cons u urls)
  show ?case
  proof (cases "lookup_bool (seen q) (url_String u) \<or> Host u \<noteq> baseHost q")
    case True
    then show ?thesis using Cons by auto
  next
    case False
    then show ?thesis using Cons by (auto simp: lookup_bool_def)
  qed
qed

lemma admitted_keys:
  "url_String ` set (admitted_of_batch q urls) =
   {url_String u | u. u \<in> set urls \<and> \<not> lookup_bool (seen q) (url_String u) \<and> Host u = baseHost q}"
  unfolding admitted_of_batch_def first_by_string_keys by auto

lemma admitted_subset:
  "set (admitted_of_batch q urls) \<subseteq> {u \<in> set urls. \<not> lookup_bool (seen q) (url_String u) \<and> Host u = baseHost q}"
  unfolding admitted_of_batch_def using first_by_string_subset by fastforce

lemma admitted_distinct: "distinct (map url_String (admitted_of_batch q urls))"
  unfolding admitted_of_batch_def by (rule first_by_string_distinct)

lemma Push_seen_admitted:
  "lookup_bool (seen (Push q urls depth)) k \<longleftrightarrow>
   lookup_bool (seen q) k \<or> k \<in> url_String ` set (admitted_of_batch q urls)"
  unfolding Push_seen admitted_keys by auto

lemma Push_noop:
  "\<forall>u\<in>set urls. lookup_bool (seen q) (url_String u) \<or> Host u \<noteq> baseHost q \<Longrightarrow> Push q urls depth = q"
  by (induction urls arbitrary: q) auto

lemma Push_twice: "Push (Push q urls d) urls d' = Push q urls d"
  by (rule Push_noop) (auto simp: Push_seen Push_baseHost)

lemma url_String_example: "url_String (example_base\<lparr>Path := ''/logo.png''\<rparr>) = ''https://example.com/logo.png''"
  by (simp add: url_String_def example_base_def)

text \<open>
  C2 (as the code has it). \<^verbatim>\<open>Push\<close> appends, at the given depth and in the order of
  the batch, one item for each URL string of the batch that is not yet marked seen and
  whose URL is on the base host, and marks exactly those strings seen. No other rule of
  the admission policy is read by \<^verbatim>\<open>Push\<close>: scheme, extension and patterns are
  tested by the worker when it takes the item out.
\<close>

theorem Push_admits_unseen_same_host:
  "URLQueue.queue (Push q urls depth) =
     URLQueue.queue q @
     map (\<lambda>u. \<lparr>QueueItem.URL = u, QueueItem.Depth = depth\<rparr>) (admitted_of_batch q urls) \<and>
   (\<forall>k. lookup_bool (seen (Push q urls depth)) k \<longleftrightarrow>
        lookup_bool (seen q) k \<or> k \<in> url_String ` set (admitted_of_batch q urls)) \<and>
   (\<forall>k. k \<in> url_String ` set (admitted_of_batch q urls) \<longleftrightarrow>
        \<not> lookup_bool (seen q) k \<and> (\<exists>u\<in>set urls. url_String u = k \<and> Host u = baseHost q))"
proof (intro conjI allI impI)
  show "URLQueue.queue (Push q urls depth) =
     URLQueue.queue q @
     map (\<lambda>u. \<lparr>QueueItem.URL = u, QueueItem.Depth = depth\<rparr>) (admitted_of_batch q urls)"
    by (rule Push_queue)
next
  fix k
  show "lookup_bool (seen (Push q urls depth)) k \<longleftrightarrow>
        lookup_bool (seen q) k \<or> k \<in> url_String ` set (admitted_of_batch q urls)"
    by (rule Push_seen_admitted)
next
  fix k
  show "k \<in> url_String ` set (admitted_of_batch q urls) \<longleftrightarrow>
        \<not> lookup_bool (seen q) k \<and> (\<exists>u\<in>set urls. url_String u = k \<and> Host u = baseHost q)"
    unfolding admitted_keys by auto
qed

theorem Push_admits_unseen_same_host_witness:
  "admitted_of_batch (Push (NewURLQueue example_base) [example_base] 0)
     [example_a, example_base, example_a\<lparr>Host := ''other.com''\<rparr>, example_a] = [example_a] \<and>
   URLQueue.queue (Push (Push (NewURLQueue example_base) [example_base] 0)
     [example_a, example_base, example_a\<lparr>Host := ''other.com''\<rparr>, example_a] 1) =
     [\<lparr>QueueItem.URL = example_base, QueueItem.Depth = 0\<rparr>,
      \<lparr>QueueItem.URL = example_a, QueueItem.Depth = 1\<rparr>] \<and>
   lookup_bool (seen (Push (Push (NewURLQueue example_base) [example_base] 0)
     [example_a, example_base, example_a\<lparr>Host := ''other.com''\<rparr>, example_a] 1))
     ''https://example.com/a'' \<and>
   \<not> lookup_bool (seen (Push (Push (NewURLQueue example_base) [example_base] 0)
     [example_a, example_base, example_a\<lparr>Host := ''other.com''\<rparr>, example_a] 1))
     ''https://other.com/a''"
  using Push_admits_unseen_same_host [of "Push (NewURLQueue example_base) [example_base] 0"
      "[example_a, example_base, example_a\<lparr>Host := ''other.com''\<rparr>, example_a]" 1]
  by (simp add: NewURLQueue_def lookup_bool_def example_base_def example_a_def url_String_def
      admitted_of_batch_def)

text \<open>
  The claim as stated fails for a URL on the base host that the admission policy
  rejects: \<^verbatim>\<open>https://example.com/logo.png\<close> is marked seen and queued.
\<close>

theorem Push_ignores_policy_counterexample:
  "URLQueue.queue (Push (NewURLQueue example_base) [example_base\<lparr>Path := ''/logo.png''\<rparr>] 1) =
     [\<lparr>QueueItem.URL = example_base\<lparr>Path := ''/logo.png''\<rparr>, QueueItem.Depth = 1\<rparr>] \<and>
   lookup_bool (seen (Push (NewURLQueue example_base) [example_base\<lparr>Path := ''/logo.png''\<rparr>] 1))
     (url_String (example_base\<lparr>Path := ''/logo.png''\<rparr>)) \<and>
   \<not> lookup_bool (seen (NewURLQueue example_base)) (url_String (example_base\<lparr>Path := ''/logo.png''\<rparr>)) \<and>
   \<not> IsValid example_validator (example_base\<lparr>Path := ''/logo.png''\<rparr>)"
  by (simp add: NewURLQueue_def lookup_bool_def example_base_def example_validator_def
      IsValid_def isNonContentFile_def nonContentExts_def HasSuffix_def ToLower_def lower_byte_def)

lemma map_key_mk:
  "map (\<lambda>it. url_String (QueueItem.URL it)) (map (\<lambda>u. \<lparr>QueueItem.URL = u, QueueItem.Depth = d\<rparr>) us) =
   map url_String us"
  by (simp add: comp_def)

lemma queue_inv_Push:
  assumes "queue_inv q out"
  shows "queue_inv (Push q urls depth) out"
proof -
  let ?adm = "admitted_of_batch q urls"
  let ?key = "\<lambda>it. url_String (QueueItem.URL it)"
  have new: "\<forall>k\<in>set (map url_String ?adm). \<not> lookup_bool (seen q) k"
    using admitted_keys [of q urls] by auto
  have old: "\<forall>k\<in>set (map ?key (out @ URLQueue.queue q)). lookup_bool (seen q) k"
    using assms by (auto simp: queue_inv_def list_all_iff)
  have disj: "set (map ?key (out @ URLQueue.queue q)) \<inter> set (map url_String ?adm) = {}"
    using new old by blast
  have d: "distinct (map ?key (out @ URLQueue.queue q) @ map url_String ?adm)"
    using assms admitted_distinct [of q urls] disj
    by (simp only: distinct_append queue_inv_def)
  have s: "list_all (\<lambda>it. lookup_bool (seen (Push q urls depth)) (?key it))
             (out @ URLQueue.queue (Push q urls depth))"
    using old by (auto simp: list_all_iff Push_queue Push_seen_admitted)
  have m: "map ?key (out @ URLQueue.queue (Push q urls depth)) =
           map ?key (out @ URLQueue.queue q) @ map url_String ?adm"
    by (simp add: Push_queue comp_def)
  show ?thesis
    unfolding queue_inv_def using d s by (simp only: m simp_thms)
qed

lemma queue_inv_Pop:
  assumes "queue_inv q out" and "Pop q = (Some item, q')"
  shows "queue_inv q' (out @ [item])"
  using assms by (auto simp: queue_inv_def Pop_def split: list.splits)

lemma Pop_None: "Pop q = (None, q') \<Longrightarrow> q' = q"
  by (auto simp: Pop_def split: list.splits)

lemma Pop_seen: "seen (snd (Pop q)) = seen q"
  by (auto simp: Pop_def split: list.splits)

lemma run_ops_inv:
  "queue_inv q out \<Longrightarrow> queue_inv (fst (run_ops (q, out) ops)) (snd (run_ops (q, out) ops))"
proof (induction ops arbitrary: q out)
  case Nil
  then show ?case by simp
next
  case (Cons op ops)
  show ?case
  proof (cases op)
    case (PushOp urls depth)
    then show ?thesis using Cons queue_inv_Push by simp
  next
    case PopOp
    show ?thesis
    proof (cases "Pop q")
      case (Pair r q')
      then show ?thesis
        using Cons PopOp queue_inv_Pop [of q out _ q'] Pop_None [of q q']
        by (cases r) auto
    qed
  qed
qed

lemma run_ops_seen_mono:
  "lookup_bool (seen q) k \<Longrightarrow> lookup_bool (seen (fst (run_ops (q, out) ops))) k"
proof (induction ops arbitrary: q out)
  case Nil
  then show ?case by simp
next
  case (Cons op ops)
  show ?case
  proof (cases op)
    case (PushOp urls depth)
    then show ?thesis using Cons by (simp add: Push_seen)
  next
    case PopOp
    show ?thesis
    proof (cases "Pop q")
      case (Pair r q')
      with Pop_seen [of q] have "seen q' = seen q" by simp
      with Pair show ?thesis using Cons PopOp by (cases r) auto
    qed
  qed
qed

lemma queue_inv_New: "queue_inv (NewURLQueue base) []"
  by (simp add: queue_inv_def NewURLQueue_def)

text \<open>
  C5. The seen map only grows along any sequence of \<^verbatim>\<open>Push\<close> and \<^verbatim>\<open>Pop\<close>
  calls; offering URLs that are all marked seen changes nothing, and so does offering a
  batch a second time; and over a whole run from a new queue the strings of all items
  ever queued (those handed out and those still queued) are pairwise different.
\<close>

theorem admission_at_most_once:
  "(lookup_bool (seen q) k \<longrightarrow> lookup_bool (seen (fst (run_ops (q, out) ops))) k) \<and>
   ((\<forall>u\<in>set urls. lookup_bool (seen q) (url_String u)) \<longrightarrow> Push q urls depth = q) \<and>
   Push (Push q urls depth) urls depth' = Push q urls depth \<and>
   distinct (map (\<lambda>it. url_String (QueueItem.URL it))
     (snd (run_ops (NewURLQueue base, []) ops) @
      URLQueue.queue (fst (run_ops (NewURLQueue base, []) ops))))"
proof (intro conjI impI)
  assume "lookup_bool (seen q) k"
  then show "lookup_bool (seen (fst (run_ops (q, out) ops))) k" by (rule run_ops_seen_mono)
next
  assume "\<forall>u\<in>set urls. lookup_bool (seen q) (url_String u)"
  then show "Push q urls depth = q" by (intro Push_noop) blast
next
  show "Push (Push q urls depth) urls depth' = Push q urls depth" by (rule Push_twice)
next
  from run_ops_inv [OF queue_inv_New, of base ops]
  show "distinct (map (\<lambda>it. url_String (QueueItem.URL it))
     (snd (run_ops (NewURLQueue base, []) ops) @
      URLQueue.queue (fst (run_ops (NewURLQueue base, []) ops))))"
    by (simp add: queue_inv_def)
qed

theorem admission_at_most_once_witness:
  "lookup_bool (seen (Push (NewURLQueue example_base) [example_base] 0)) ''https://example.com/'' \<and>
   lookup_bool (seen (fst (run_ops (Push (NewURLQueue example_base) [example_base] 0, [])
       [PushOp [example_base] 0, PopOp, PushOp [example_a, example_base, example_a] 1,
        PushOp [example_a] 2]))) ''https://example.com/'' \<and>
   Push (Push (NewURLQueue example_base) [example_base] 0) [example_base] 1 =
     Push (NewURLQueue example_base) [example_base] 0 \<and>
   map (\<lambda>it. url_String (QueueItem.URL it))
     (snd (run_ops (NewURLQueue example_base, [])
        [PushOp [example_base] 0, PopOp, PushOp [example_a, example_base, example_a] 1,
         PushOp [example_a] 2]) @
      URLQueue.queue (fst (run_ops (NewURLQueue example_base, [])
        [PushOp [example_base] 0, PopOp, PushOp [example_a, example_base, example_a] 1,
         PushOp [example_a] 2]))) = [''https://example.com/'', ''https://example.com/a'']"
  using admission_at_most_once [of "Push (NewURLQueue example_base) [example_base] 0"
      "''https://example.com/''" "[]"
      "[PushOp [example_base] 0, PopOp, PushOp [example_a, example_base, example_a] 1,
         PushOp [example_a] 2]"
      "[example_base]" 1 1 example_base]
  by (simp add: NewURLQueue_def lookup_bool_def example_base_def example_a_def Pop_def url_String_def)

section \<open>Properties of a worker's steps\<close>

lemma worker_step_cases:
  assumes "worker_step w now d i c = Some c'"
  obtains
    (exit) "i < length (goroutines c)" "goroutines c ! i = AtLoopTop"
      "ctx_done c \<or> URLQueue.queue (queue c) = []"
      "c' = c\<lparr>goroutines := (goroutines c)[i := Returned]\<rparr>"
  | (skip) item rest where "i < length (goroutines c)" "goroutines c ! i = AtLoopTop"
      "\<not> ctx_done c" "URLQueue.queue (queue c) = item # rest" "\<not> fetchable c item"
      "c' = c\<lparr>queue := (queue c)\<lparr>URLQueue.queue := rest\<rparr>, popped := popped c @ [item]\<rparr>"
  | (fetch) item rest where "i < length (goroutines c)" "goroutines c ! i = AtLoopTop"
      "\<not> ctx_done c" "URLQueue.queue (queue c) = item # rest" "fetchable c item"
      "c' = c\<lparr>queue := (queue c)\<lparr>URLQueue.queue := rest\<rparr>, popped := popped c @ [item],
               goroutines := (goroutines c)[i := InProcess item]\<rparr>"
  | (process) item page err where "i < length (goroutines c)" "goroutines c ! i = InProcess item"
      "Process w now (NewPage (QueueItem.URL item) (QueueItem.Depth item)) = (page, err)"
      "c' = c\<lparr>requests := requests c @ [item_key item],
               processed := processed c + 1,
               errors := (if err \<noteq> None then errors c + 1 else errors c),
               results := results c @
                 [\<lparr>Result.URL = item_key item, LastMod = LastModified page, StatusCode = 200,
                   Result.Error = err, Result.Depth = QueueItem.Depth item, TimeToFetch = d\<rparr>],
               goroutines := (goroutines c)[i := AfterSend item page err]\<rparr>"
  | (push) item page err where "i < length (goroutines c)" "goroutines c ! i = AfterSend item page err"
      "c' = c\<lparr>queue := (if err = None then Push (queue c) (Links page) (QueueItem.Depth item + 1)
                         else queue c),
               goroutines := (goroutines c)[i := AtLoopTop]\<rparr>"
proof -
  from assms have i: "i < length (goroutines c)"
    by (auto simp: worker_step_def split: if_splits)
  show ?thesis
  proof (cases "goroutines c ! i")
    case AtLoopTop
    show ?thesis
    proof (cases "ctx_done c \<or> URLQueue.queue (queue c) = []")
      case True
      then have "worker_take c = (Exit, c)"
        by (auto simp: worker_take_def Pop_def)
      with assms i AtLoopTop have "c' = c\<lparr>goroutines := (goroutines c)[i := Returned]\<rparr>"
        by (simp add: worker_step_def set_goroutine_def)
      with i AtLoopTop True show ?thesis by (rule exit)
    next
      case False
      then obtain item rest where q: "URLQueue.queue (queue c) = item # rest"
        by (cases "URLQueue.queue (queue c)") auto
      show ?thesis
      proof (cases "fetchable c item")
        case True
        with False q have "worker_take c =
            (Fetch item, c\<lparr>queue := (queue c)\<lparr>URLQueue.queue := rest\<rparr>, popped := popped c @ [item]\<rparr>)"
          by (auto simp: worker_take_def Pop_def fetchable_def Let_def)
        with assms i AtLoopTop have "c' = c\<lparr>queue := (queue c)\<lparr>URLQueue.queue := rest\<rparr>,
               popped := popped c @ [item], goroutines := (goroutines c)[i := InProcess item]\<rparr>"
          by (simp add: worker_step_def set_goroutine_def)
        with i AtLoopTop False q True show ?thesis by (intro fetch) auto
      next
        case nf: False
        with False q have "worker_take c =
            (Skip, c\<lparr>queue := (queue c)\<lparr>URLQueue.queue := rest\<rparr>, popped := popped c @ [item]\<rparr>)"
          by (auto simp: worker_take_def Pop_def fetchable_def Let_def)
        with assms i AtLoopTop have "c' = c\<lparr>queue := (queue c)\<lparr>URLQueue.queue := rest\<rparr>,
               popped := popped c @ [item]\<rparr>"
          by (simp add: worker_step_def set_goroutine_def)
        with i AtLoopTop False q nf show ?thesis by (intro skip) auto
      qed
    qed
  next
    case (InProcess item)
    obtain page err where p: "Process w now (NewPage (QueueItem.URL item) (QueueItem.Depth item)) = (page, err)"
      by (cases "Process w now (NewPage (QueueItem.URL item) (QueueItem.Depth item))") auto
    with assms i InProcess show ?thesis
      by (intro process [of item page err])
        (auto simp: worker_step_def worker_process_def set_goroutine_def item_key_def)
  next
    case (AfterSend item page err)
    with assms i show ?thesis
      by (intro push [of item page err])
        (auto simp: worker_step_def worker_push_def set_goroutine_def)
  next
    case Returned
    with assms i show ?thesis by (simp add: worker_step_def)
  qed
qed

lemma sum_mset_update:
  fixes f :: "'a \<Rightarrow> 'b::comm_monoid_add"
  assumes "i < length gs"
  shows "sum_mset (image_mset f (mset (gs[i := g']))) + f (gs ! i) =
         sum_mset (image_mset f (mset gs)) + f g'"
proof -
  define M where "M = mset gs - {#gs ! i#}"
  have "gs ! i \<in># mset gs" using assms by simp
  then have old: "mset gs = add_mset (gs ! i) M"
    unfolding M_def by simp
  have new: "mset (gs[i := g']) = add_mset g' M"
    unfolding M_def using assms by (rule mset_update)
  show ?thesis
    unfolding old new by (simp add: ac_simps)
qed

lemma in_process_update:
  "i < length (goroutines c) \<Longrightarrow> goroutines c' = (goroutines c)[i := g] \<Longrightarrow>
   in_process c' + held_item (goroutines c ! i) = in_process c + held_item g"
  unfolding in_process_def by (simp add: sum_mset_update)

lemma after_send_update:
  "i < length (goroutines c) \<Longrightarrow> goroutines c' = (goroutines c)[i := g] \<Longrightarrow>
   after_send c' + sent_item (goroutines c ! i) = after_send c + sent_item g"
  unfolding after_send_def by (simp add: sum_mset_update)

lemma in_process_same: "goroutines c' = goroutines c \<Longrightarrow> in_process c' = in_process c"
  by (simp add: in_process_def)

lemma after_send_same: "goroutines c' = goroutines c \<Longrightarrow> after_send c' = after_send c"
  by (simp add: after_send_def)

lemma traverse_URL_only:
  "Page.URL p = Page.URL p' \<Longrightarrow> traverse p n = traverse p' n"
proof (induction p n rule: traverse.induct)
  case (1 p ty data attrs children)
  have n: "normalizeURL p = normalizeURL p'"
    unfolding normalizeURL_def "1.prems" ..
  have a: "anchor_links p attrs = anchor_links p' attrs"
    unfolding anchor_links_def n ..
  have l: "link_links p attrs = link_links p' attrs"
    unfolding link_links_def n ..
  have m: "map (traverse p) children = map (traverse p') children"
    using 1 by (intro map_cong) auto
  show ?case
    unfolding traverse.simps a l m ..
qed

lemma Process_Responded_200:
  assumes "http_get w (url_String (Page.URL p)) = Responded resp"
      and "Response.StatusCode resp = 200"
  shows "Process w now p =
         parseHTML (p\<lparr>LastModified := stamped w now resp (LastModified p)\<rparr>) (Body resp)"
proof (cases "LastModifiedHeader resp = []")
  case True
  with assms show ?thesis
    by (cases "IsZero (LastModified p)") (simp_all add: Process_def stamped_def Let_def)
next
  case False
  show ?thesis
  proof (cases "parse_RFC1123 w (LastModifiedHeader resp)")
    case None
    with False assms show ?thesis
      by (cases "IsZero (LastModified p)") (simp_all add: Process_def stamped_def Let_def)
  next
    case (Some t)
    with False assms show ?thesis
      by (cases "IsZero t") (simp_all add: Process_def stamped_def Let_def)
  qed
qed

lemma Process_not_200:
  assumes "http_get w (url_String (Page.URL p)) = Responded resp"
      and "Response.StatusCode resp \<noteq> 200"
  shows "Process w now p = (p, Some (UnexpectedStatus (Response.StatusCode resp)))"
  using assms by (simp add: Process_def)

lemma Process_Links:
  assumes "Process w now (NewPage u d) = (page, err)"
  shows "Links page = page_links w u" and "err \<noteq> None \<Longrightarrow> Links page = []"
proof -
  have both: "Links page = page_links w u \<and> (err \<noteq> None \<longrightarrow> Links page = [])"
  proof (cases "http_get w (url_String u)")
    case NewRequestError
    with assms show ?thesis by (auto simp: page_links_def Process_def NewPage_def)
  next
    case DoError
    with assms show ?thesis by (auto simp: page_links_def Process_def NewPage_def)
  next
    case (Responded resp)
    show ?thesis
    proof (cases "Response.StatusCode resp = 200")
      case False
      with Responded assms show ?thesis
        by (auto simp: page_links_def Process_not_200 NewPage_def)
    next
      case True
      have u: "\<And>d'. Page.URL (NewPage u d') = u" by (simp add: NewPage_def)
      have p1: "Process w now (NewPage u d) =
          parseHTML ((NewPage u d)\<lparr>LastModified := stamped w now resp (LastModified (NewPage u d))\<rparr>) (Body resp)"
        using Responded True by (intro Process_Responded_200) (simp_all add: u)
      have p2: "Process w 0 (NewPage u 0) =
          parseHTML ((NewPage u 0)\<lparr>LastModified := stamped w 0 resp (LastModified (NewPage u 0))\<rparr>) (Body resp)"
        using Responded True by (intro Process_Responded_200) (simp_all add: u)
      show ?thesis
      proof (cases "Body resp")
        case None
        with assms show ?thesis
          unfolding page_links_def p1 p2 by (auto simp: parseHTML_def NewPage_def)
      next
        case (Some doc)
        have "traverse ((NewPage u d)\<lparr>LastModified := stamped w now resp (LastModified (NewPage u d))\<rparr>) doc =
              traverse ((NewPage u 0)\<lparr>LastModified := stamped w 0 resp (LastModified (NewPage u 0))\<rparr>) doc"
          by (rule traverse_URL_only) (simp add: NewPage_def)
        with Some assms show ?thesis
          unfolding page_links_def p1 p2 by (auto simp: parseHTML_def)
      qed
    qed
  qed
  from both show "Links page = page_links w u" by simp
  from both show "err \<noteq> None \<Longrightarrow> Links page = []" by blast
qed

lemma event_cases:
  assumes "do_event w ev c = Some c'"
  obtains
    (cancel) "\<not> ctx_done c" "c' = c\<lparr>ctx_done := True\<rparr>"
      "in_process c' = in_process c" "after_send c' = after_send c"
  | (exit) i where "i < length (goroutines c)" "goroutines c ! i = AtLoopTop"
      "ctx_done c \<or> URLQueue.queue (queue c) = []"
      "c' = c\<lparr>goroutines := (goroutines c)[i := Returned]\<rparr>"
      "in_process c' = in_process c" "after_send c' = after_send c"
  | (skip) i item rest where "i < length (goroutines c)" "goroutines c ! i = AtLoopTop"
      "\<not> ctx_done c" "URLQueue.queue (queue c) = item # rest" "\<not> fetchable c item"
      "c' = c\<lparr>queue := (queue c)\<lparr>URLQueue.queue := rest\<rparr>, popped := popped c @ [item]\<rparr>"
      "in_process c' = in_process c" "after_send c' = after_send c"
  | (fetch) i item rest where "i < length (goroutines c)" "goroutines c ! i = AtLoopTop"
      "\<not> ctx_done c" "URLQueue.queue (queue c) = item # rest" "fetchable c item"
      "c' = c\<lparr>queue := (queue c)\<lparr>URLQueue.queue := rest\<rparr>, popped := popped c @ [item],
               goroutines := (goroutines c)[i := InProcess item]\<rparr>"
      "in_process c' = add_mset item (in_process c)" "after_send c' = after_send c"
  | (process) i now d item page err where
      "i < length (goroutines c)" "goroutines c ! i = InProcess item"
      "Process w now (NewPage (QueueItem.URL item) (QueueItem.Depth item)) = (page, err)"
      "c' = c\<lparr>requests := requests c @ [item_key item],
               processed := processed c + 1,
               errors := (if err \<noteq> None then errors c + 1 else errors c),
               results := results c @
                 [\<lparr>Result.URL = item_key item, LastMod = LastModified page, StatusCode = 200,
                   Result.Error = err, Result.Depth = QueueItem.Depth item, TimeToFetch = d\<rparr>],
               goroutines := (goroutines c)[i := AfterSend item page err]\<rparr>"
      "in_process c = add_mset item (in_process c')"
      "after_send c' = add_mset (item, page, err) (after_send c)"
  | (push) i item page err where
      "i < length (goroutines c)" "goroutines c ! i = AfterSend item page err"
      "c' = c\<lparr>queue := (if err = None then Push (queue c) (Links page) (QueueItem.Depth item + 1)
                         else queue c),
               goroutines := (goroutines c)[i := AtLoopTop]\<rparr>"
      "in_process c' = in_process c"
      "after_send c = add_mset (item, page, err) (after_send c')"
proof (cases ev)
  case Cancel
  with assms have "\<not> ctx_done c" "c' = c\<lparr>ctx_done := True\<rparr>"
    by (auto simp: do_event_def split: if_splits)
  then show ?thesis
    by (intro cancel) (simp_all add: in_process_def after_send_def)
next
  case (Step i now d)
  with assms have ws: "worker_step w now d i c = Some c'"
    by (simp add: do_event_def)
  from ws show ?thesis
  proof (cases rule: worker_step_cases)
    case exit
    from in_process_update [OF exit(1), of c' Returned] after_send_update [OF exit(1), of c' Returned] exit
    have "in_process c' = in_process c" "after_send c' = after_send c" by simp_all
    with exit show ?thesis using that(2) by blast
  next
    case (skip item rest)
    then have "in_process c' = in_process c" "after_send c' = after_send c"
      by (simp_all add: in_process_def after_send_def)
    with skip show ?thesis using that(3) by blast
  next
    case (fetch item rest)
    from in_process_update [OF fetch(1), of c' "InProcess item"]
         after_send_update [OF fetch(1), of c' "InProcess item"] fetch
    have "in_process c' = add_mset item (in_process c)" "after_send c' = after_send c" by simp_all
    with fetch show ?thesis using that(4) by blast
  next
    case (process item page err)
    from in_process_update [OF process(1), of c' "AfterSend item page err"]
         after_send_update [OF process(1), of c' "AfterSend item page err"] process
    have "in_process c = add_mset item (in_process c')"
         "after_send c' = add_mset (item, page, err) (after_send c)" by simp_all
    with process show ?thesis using that(5) by blast
  next
    case (push item page err)
    from in_process_update [OF push(1), of c' AtLoopTop]
         after_send_update [OF push(1), of c' AtLoopTop] push
    have "in_process c' = in_process c"
         "after_send c = add_mset (item, page, err) (after_send c')" by simp_all
    with push show ?thesis using that(6) by blast
  qed
qed

text \<open>
  C6. The code at a page that answers 404 with a body that holds a link: the fetch is
  an error that carries the status 404 and the body is not parsed (the page has no
  links), as the claim says; but the Result that the worker sends has the status code
  200, not 404. The worker writes the constant \<^verbatim>\<open>http.StatusOK\<close> into every Result.
\<close>

theorem non_200_result_carries_200:
  "fst (worker_process world_404 1000 5 example_item example_crawler) =
     (NewPage example_base 0, Some (UnexpectedStatus 404)) \<and>
   Links (fst (fst (worker_process world_404 1000 5 example_item example_crawler))) = [] \<and>
   results (snd (worker_process world_404 1000 5 example_item example_crawler)) =
     [\<lparr>Result.URL = ''https://example.com/'', LastMod = 0, StatusCode = 200,
       Result.Error = Some (UnexpectedStatus 404), Result.Depth = 0, TimeToFetch = 5\<rparr>]"
  by (simp add: worker_process_def world_404_def Process_def NewPage_def example_item_def
      example_crawler_def example_base_def url_String_def)

text \<open>The same for every fetch: whatever the outcome, the Result sent carries 200.\<close>

lemma Result_StatusCode_always_200:
  "Result.StatusCode (last (results (snd (worker_process w now d item c)))) = 200"
  by (simp add: worker_process_def split: prod.splits)

text \<open>
  The time of a page after a response with status 200: the parsed header, unless the
  header is absent, does not parse, or parses to the zero time; then it is the current
  time. After any other status \<^verbatim>\<open>Process\<close> has returned before it reads the header.
\<close>

lemma Process_LastModified:
  assumes "http_get w (url_String u) = Responded resp" and "Response.StatusCode resp = 200"
  shows "LastModified (fst (Process w now (NewPage u d))) =
         (if LastModifiedHeader resp = [] then now
          else case parse_RFC1123 w (LastModifiedHeader resp) of
                 None \<Rightarrow> now
               | Some t \<Rightarrow> if t = 0 then now else t)"
proof -
  have "Process w now (NewPage u d) =
        parseHTML ((NewPage u d)\<lparr>LastModified := stamped w now resp (LastModified (NewPage u d))\<rparr>) (Body resp)"
    using assms by (intro Process_Responded_200) (simp_all add: NewPage_def)
  then show ?thesis
    by (auto simp: parseHTML_def stamped_def NewPage_def IsZero_def Let_def split: option.splits)
qed

lemma Process_failed_LastModified:
  assumes "http_get w (url_String u) = Responded resp" and "Response.StatusCode resp \<noteq> 200"
  shows "LastModified (fst (Process w now (NewPage u d))) = 0"
  using assms by (simp add: Process_def NewPage_def)

text \<open>
  C9. The code at a response with status 200 whose \<^verbatim>\<open>Last-Modified\<close> header is
  \<^verbatim>\<open>Mon, 01 Jan 0001 00:00:00 UTC\<close>, which \<^verbatim>\<open>time.Parse\<close> reads without error
  as the zero time: the header is present and parses, yet the page and the Result get
  the current time (1000 here), because \<^verbatim>\<open>IsZero\<close> is the test for "no header
  was read".
\<close>

theorem zero_time_header_replaced_by_now:
  "parse_RFC1123 world_zero_date ''Mon, 01 Jan 0001 00:00:00 UTC'' = Some 0 \<and>
   snd (Process world_zero_date 1000 (NewPage example_base 0)) = None \<and>
   LastModified (fst (Process world_zero_date 1000 (NewPage example_base 0))) = 1000 \<and>
   map LastMod (results (snd (worker_process world_zero_date 1000 5 example_item example_crawler))) = [1000]"
  by (simp add: worker_process_def world_zero_date_def Process_def NewPage_def example_item_def
      example_crawler_def example_base_def url_String_def parseHTML_def IsZero_def)



lemma unfetchable_item_skipped_at_dequeue:
  assumes "i < length (goroutines c)" and "goroutines c ! i = AtLoopTop" and "\<not> ctx_done c"
      and "Pop (queue c) = (Some item, q')"
      and "MaxDepth (config c) < QueueItem.Depth item \<or> \<not> IsValid (validator c) (QueueItem.URL item)"
  shows "worker_step w now d i c = Some (c\<lparr>queue := q', popped := popped c @ [item]\<rparr>)"
  using assms
  by (auto simp: worker_step_def worker_take_def Let_def)

section \<open>The invariants hold along every execution\<close>

lemma fetchable_cong:
  "config c' = config c \<Longrightarrow> validator c' = validator c \<Longrightarrow> fetchable c' = fetchable c"
  by (auto simp: fetchable_def fun_eq_iff)

lemma inv_queue_step:
  assumes "inv_queue seed c" and "do_event w ev c = Some c'"
  shows "inv_queue seed c'"
  using assms(2)
proof (cases rule: event_cases)
  case cancel
  with assms(1) show ?thesis by (simp add: inv_queue_def)
next
  case (exit i)
  with assms(1) show ?thesis by (simp add: inv_queue_def)
next
  case (skip i item rest)
  with assms(1) show ?thesis by (simp add: inv_queue_def queue_inv_def)
next
  case (fetch i item rest)
  with assms(1) show ?thesis by (simp add: inv_queue_def queue_inv_def)
next
  case (process i now d item page err)
  with assms(1) show ?thesis by (simp add: inv_queue_def)
next
  case (push i item page err)
  show ?thesis
  proof (cases err)
    case (Some e)
    with push assms(1) show ?thesis by (simp add: inv_queue_def)
  next
    case None
    let ?q' = "Push (queue c) (Links page) (QueueItem.Depth item + 1)"
    have q: "queue c' = ?q'" and p: "popped c' = popped c" using push None by simp_all
    have 1: "queue_inv ?q' (popped c)"
      using assms(1) by (intro queue_inv_Push) (simp add: inv_queue_def)
    have 2: "\<forall>k. lookup_bool (seen ?q') k \<longrightarrow> k \<in> item_key ` set (popped c @ URLQueue.queue ?q')"
    proof (intro allI impI)
      fix k assume "lookup_bool (seen ?q') k"
      then consider "lookup_bool (seen (queue c)) k"
        | "k \<in> url_String ` set (admitted_of_batch (queue c) (Links page))"
        by (auto simp: Push_seen_admitted)
      then show "k \<in> item_key ` set (popped c @ URLQueue.queue ?q')"
      proof cases
        case 1
        with assms(1) have "k \<in> item_key ` set (popped c @ URLQueue.queue (queue c))"
          by (simp add: inv_queue_def)
        then show ?thesis by (auto simp: Push_queue)
      next
        case 2
        then obtain u where "u \<in> set (admitted_of_batch (queue c) (Links page))" "k = url_String u"
          by auto
        then have "k \<in> item_key ` set (map (\<lambda>u. \<lparr>QueueItem.URL = u, QueueItem.Depth = QueueItem.Depth item + 1\<rparr>)
                (admitted_of_batch (queue c) (Links page)))"
          by (force simp: item_key_def)
        then show ?thesis by (auto simp: Push_queue)
      qed
    qed
    have 3: "lookup_bool (seen ?q') (url_String seed)"
      using assms(1) by (simp add: inv_queue_def Push_seen)
    show ?thesis
      unfolding inv_queue_def q p using 1 2 3 assms(1)
      by (simp add: Push_baseHost inv_queue_def)
  qed
qed

lemma inv_results_step:
  assumes "inv_results w c" and "do_event w ev c = Some c'"
  shows "inv_results w c'"
  using assms(2)
proof (cases rule: event_cases)
  case cancel
  have f: "fetchable c' = fetchable c" using cancel by (intro fetchable_cong) simp_all
  from cancel assms(1) show ?thesis
    unfolding inv_results_def f by simp
next
  case (exit i)
  have f: "fetchable c' = fetchable c" using exit by (intro fetchable_cong) simp_all
  from exit assms(1) show ?thesis
    unfolding inv_results_def f by simp
next
  case (skip i item rest)
  have f: "fetchable c' = fetchable c" using skip by (intro fetchable_cong) simp_all
  from skip assms(1) show ?thesis
    unfolding inv_results_def f by auto
next
  case (fetch i item rest)
  have f: "fetchable c' = fetchable c" using fetch by (intro fetchable_cong) simp_all
  from fetch assms(1) show ?thesis
    unfolding inv_results_def f by auto
next
  case (process i now d item page err)
  have f: "fetchable c' = fetchable c" using process by (intro fetchable_cong) simp_all
  have held: "item \<in> set (popped c) \<and> fetchable c item"
    using assms(1) process(5) by (simp add: inv_results_def)
  have links: "Links page = page_links w (QueueItem.URL item) \<and>
      (err \<noteq> None \<longrightarrow> page_links w (QueueItem.URL item) = [])"
    using Process_Links [OF process(3)] by auto
  have r: "results c' = results c @
                 [\<lparr>Result.URL = item_key item, LastMod = LastModified page, StatusCode = 200,
                   Result.Error = err, Result.Depth = QueueItem.Depth item, TimeToFetch = d\<rparr>]"
    and rq: "requests c' = requests c @ [item_key item]"
    and p: "popped c' = popped c"
    using process(4) by simp_all
  have 1: "image_mset item_id (in_process c') + mset (map result_id (results c')) =
        mset (map item_id (filter (fetchable c) (popped c)))"
    using assms(1) unfolding inv_results_def r process(5)
    by (simp add: result_id_def item_id_def)
  have 3: "\<forall>it. it \<in># in_process c' \<longrightarrow> it \<in> set (popped c) \<and> fetchable c it"
    using assms(1) unfolding inv_results_def process(5) by simp
  have 4: "\<forall>it pg e. (it, pg, e) \<in># after_send c' \<longrightarrow>
         it \<in> set (popped c) \<and> fetchable c it \<and>
         Links pg = page_links w (QueueItem.URL it) \<and>
         (e \<noteq> None \<longrightarrow> page_links w (QueueItem.URL it) = [])"
    using assms(1) held links unfolding inv_results_def process(6) by auto
  show ?thesis
    unfolding inv_results_def f p using 1 3 4 assms(1) by (simp add: r rq inv_results_def)
next
  case (push i item page err)
  have f: "fetchable c' = fetchable c" using push by (intro fetchable_cong) simp_all
  have p: "popped c' = popped c" "results c' = results c" "requests c' = requests c"
    using push(3) by simp_all
  show ?thesis
    using assms(1) unfolding inv_results_def f p push(4) push(5) by auto
qed

lemma inv_live_step:
  assumes "do_event w ev c = Some c'"
  shows "inv_live c'"
  using assms
proof (cases rule: event_cases)
  case cancel
  then show ?thesis by (simp add: inv_live_def)
next
  case (exit i)
  then show ?thesis by (auto simp: inv_live_def)
next
  case (skip i item rest)
  then have "goroutines c' ! i = AtLoopTop" "i < length (goroutines c')" by simp_all
  then show ?thesis by (auto simp: inv_live_def all_returned_def list_all_length)
next
  case (fetch i item rest)
  then have "goroutines c' ! i = InProcess item" "i < length (goroutines c')" by simp_all
  then show ?thesis by (auto simp: inv_live_def all_returned_def list_all_length)
next
  case (process i now d item page err)
  then have "goroutines c' ! i = AfterSend item page err" "i < length (goroutines c')" by simp_all
  then show ?thesis by (auto simp: inv_live_def all_returned_def list_all_length)
next
  case (push i item page err)
  then have "goroutines c' ! i = AtLoopTop" "i < length (goroutines c')" by simp_all
  then show ?thesis by (auto simp: inv_live_def all_returned_def list_all_length)
qed

lemma inv_depth_step:
  assumes "inv_depth seed c" and "inv_results w c" and "do_event w ev c = Some c'"
  shows "inv_depth seed c'"
  using assms(3)
proof (cases rule: event_cases)
  case cancel
  with assms(1) show ?thesis by (simp add: inv_depth_def)
next
  case (exit i)
  with assms(1) show ?thesis by (simp add: inv_depth_def)
next
  case (skip i item rest)
  with assms(1) show ?thesis by (simp add: inv_depth_def)
next
  case (fetch i item rest)
  with assms(1) show ?thesis by (simp add: inv_depth_def)
next
  case (process i now d item page err)
  with assms(1) show ?thesis by (simp add: inv_depth_def)
next
  case (push i item page err)
  have "(item, page, err) \<in># after_send c" unfolding push(5) by simp
  with assms(2) have "item \<in> set (popped c)" "fetchable c item"
    by (auto simp: inv_results_def)
  with assms(1) have d: "0 \<le> QueueItem.Depth item" "QueueItem.Depth item \<le> MaxDepth (config c)"
    by (auto simp: inv_depth_def fetchable_def)
  show ?thesis
  proof (cases err)
    case (Some e)
    with push assms(1) show ?thesis by (simp add: inv_depth_def)
  next
    case None
    with push have q: "queue c' = Push (queue c) (Links page) (QueueItem.Depth item + 1)"
      and p: "popped c' = popped c" and cf: "config c' = config c" by simp_all
    show ?thesis
      unfolding inv_depth_def q p cf Push_queue using assms(1) d
      by (auto simp: inv_depth_def)
  qed
qed

lemma inv_closure_step:
  assumes "inv_closure w seed c" and "inv_results w c" and "inv_queue seed c"
      and "do_event w ev c = Some c'"
  shows "inv_closure w seed c'"
  using assms(4)
proof (cases rule: event_cases)
  case cancel
  have f: "fetchable c' = fetchable c" using cancel by (intro fetchable_cong) simp_all
  from cancel assms(1) show ?thesis unfolding inv_closure_def f by simp
next
  case (exit i)
  have f: "fetchable c' = fetchable c" using exit by (intro fetchable_cong) simp_all
  from exit assms(1) show ?thesis unfolding inv_closure_def f by simp
next
  case (skip i item rest)
  have f: "fetchable c' = fetchable c" using skip by (intro fetchable_cong) simp_all
  from skip assms(1) show ?thesis unfolding inv_closure_def f by auto
next
  case (fetch i item rest)
  have f: "fetchable c' = fetchable c" using fetch by (intro fetchable_cong) simp_all
  from fetch assms(1) show ?thesis unfolding inv_closure_def f by auto
next
  case (process i now d item page err)
  have f: "fetchable c' = fetchable c" using process by (intro fetchable_cong) simp_all
  have p: "popped c' = popped c" "queue c' = queue c" using process(4) by simp_all
  show ?thesis
    unfolding inv_closure_def f p process(6)
  proof (intro ballI impI)
    fix it l
    assume a: "it \<in> set (popped c)" "fetchable c it" "it \<notin># in_process c'"
      "it \<notin> fst ` set_mset (add_mset (item, page, err) (after_send c))"
      "l \<in> set (page_links w (QueueItem.URL it))" "Host l = Host seed"
    then have "it \<noteq> item" by auto
    with a(3) have "it \<notin># in_process c" unfolding process(5) by simp
    moreover from a(4) have "it \<notin> fst ` set_mset (after_send c)" by auto
    ultimately show "lookup_bool (seen (queue c)) (url_String l)"
      using assms(1) a unfolding inv_closure_def by blast
  qed
next
  case (push i item page err)
  have f: "fetchable c' = fetchable c" using push by (intro fetchable_cong) simp_all
  have p: "popped c' = popped c" using push(3) by simp
  have sent: "(item, page, err) \<in># after_send c" unfolding push(5) by simp
  with assms(2) have facts: "Links page = page_links w (QueueItem.URL item)"
      "err \<noteq> None \<longrightarrow> page_links w (QueueItem.URL item) = []"
    by (auto simp: inv_results_def)
  have bh: "baseHost (queue c) = Host seed" using assms(3) by (simp add: inv_queue_def)
  have mono: "\<And>k. lookup_bool (seen (queue c)) k \<Longrightarrow> lookup_bool (seen (queue c')) k"
    using push(3) by (cases err) (simp_all add: Push_seen)
  show ?thesis
    unfolding inv_closure_def f p push(4)
  proof (intro ballI impI)
    fix it l
    assume a: "it \<in> set (popped c)" "fetchable c it" "it \<notin># in_process c"
      "it \<notin> fst ` set_mset (after_send c')"
      "l \<in> set (page_links w (QueueItem.URL it))" "Host l = Host seed"
    show "lookup_bool (seen (queue c')) (url_String l)"
    proof (cases "it = item")
      case True
      with a(5) facts have "err = None" "l \<in> set (Links page)" by auto
      with push(3) a(6) bh show ?thesis by (auto simp: Push_seen)
    next
      case False
      with a(4) have "it \<notin> fst ` set_mset (after_send c)" unfolding push(5) by auto
      with assms(1) a have "lookup_bool (seen (queue c)) (url_String l)"
        unfolding inv_closure_def by blast
      then show ?thesis by (rule mono)
    qed
  qed
qed

lemma crawl_inv_step:
  assumes "crawl_inv w seed c" and "do_event w ev c = Some c'"
  shows "crawl_inv w seed c'"
proof -
  from assms(1) have q: "inv_queue seed c" and r: "inv_results w c"
    and cl: "inv_closure w seed c" and d: "inv_depth seed c"
    by (simp_all add: crawl_inv_def)
  show ?thesis
    unfolding crawl_inv_def
    using inv_queue_step [OF q assms(2)] inv_results_step [OF r assms(2)]
      inv_closure_step [OF cl r q assms(2)] inv_live_step [OF assms(2)]
      inv_depth_step [OF d r assms(2)]
    by simp
qed

lemma crawl_inv_run:
  "crawl_inv w seed c \<Longrightarrow> run w evs c = Some c' \<Longrightarrow> crawl_inv w seed c'"
proof (induction evs arbitrary: c)
  case Nil
  then show ?case by simp
next
  case (Cons ev evs)
  then obtain c1 where "do_event w ev c = Some c1" "run w evs c1 = Some c'"
    by (auto split: option.splits)
  with Cons show ?case using crawl_inv_step by blast
qed

lemma NewCrawler_Inr:
  assumes "NewCrawler compile cfg = Inr c0"
  obtains seed v where "BaseURL cfg = Some seed"
    "c0 = \<lparr>config = cfg, queue = NewURLQueue seed, validator = v,
           processed = 0, errors = 0, results = [], ctx_done = False,
           goroutines = [], popped = [], requests = []\<rparr>"
    "0 \<le> MaxDepth cfg" "1 \<le> MaxConcurrent cfg"
  using assms
  by (auto simp: NewCrawler_def Validate_def split: option.splits if_splits)

lemma Push_seed:
  "Push (NewURLQueue seed) [seed] 0 =
   \<lparr>URLQueue.queue = [\<lparr>QueueItem.URL = seed, QueueItem.Depth = 0\<rparr>],
    seen = [url_String seed \<mapsto> True], baseHost = Host seed\<rparr>"
  by (simp add: NewURLQueue_def lookup_bool_def)

lemma in_process_replicate: "sum_mset (image_mset held_item (mset (replicate n AtLoopTop))) = {#}"
  by (induction n) simp_all

lemma after_send_replicate: "sum_mset (image_mset sent_item (mset (replicate n AtLoopTop))) = {#}"
  by (induction n) simp_all

lemma crawl_inv_Start:
  assumes "NewCrawler compile cfg = Inr c0" and "BaseURL cfg = Some seed"
  shows "crawl_inv w seed (Start c0)"
proof -
  from assms obtain v where c0: "c0 = \<lparr>config = cfg, queue = NewURLQueue seed, validator = v,
           processed = 0, errors = 0, results = [], ctx_done = False,
           goroutines = [], popped = [], requests = []\<rparr>"
    and md: "0 \<le> MaxDepth cfg" and mc: "1 \<le> MaxConcurrent cfg"
    by (auto elim!: NewCrawler_Inr)
  have s: "Start c0 = c0\<lparr>queue := Push (NewURLQueue seed) [seed] 0,
             goroutines := replicate (nat (MaxConcurrent cfg)) AtLoopTop\<rparr>"
    using assms(2) by (simp add: Start_def c0)
  have ip: "in_process (Start c0) = {#}" "after_send (Start c0) = {#}"
    unfolding s in_process_def after_send_def
    by (simp_all add: in_process_replicate after_send_replicate)
  have ne: "\<not> all_returned (Start c0)"
    unfolding s all_returned_def using mc by (cases "nat (MaxConcurrent cfg)") (simp_all add: c0)
  have flds: "popped (Start c0) = []" "results (Start c0) = []" "requests (Start c0) = []"
    "config (Start c0) = cfg"
    "queue (Start c0) =
       \<lparr>URLQueue.queue = [\<lparr>QueueItem.URL = seed, QueueItem.Depth = 0\<rparr>],
        seen = [url_String seed \<mapsto> True], baseHost = Host seed\<rparr>"
    unfolding s Push_seed by (simp_all add: c0)
  have 1: "inv_queue seed (Start c0)"
    unfolding inv_queue_def flds by (simp add: queue_inv_def lookup_bool_def item_key_def)
  have 2: "inv_results w (Start c0)"
    unfolding inv_results_def ip flds by simp
  have 3: "inv_closure w seed (Start c0)"
    unfolding inv_closure_def flds by simp
  have 4: "inv_live (Start c0)"
    unfolding inv_live_def using ne by simp
  have 5: "inv_depth seed (Start c0)"
    unfolding inv_depth_def flds using md by simp
  from 1 2 3 4 5 show ?thesis by (simp add: crawl_inv_def)
qed

lemma do_event_const:
  assumes "do_event w ev c = Some c'"
  shows "config c' = config c \<and> validator c' = validator c"
  using assms by (cases rule: event_cases) simp_all

lemma run_const:
  "run w evs c = Some c' \<Longrightarrow> config c' = config c \<and> validator c' = validator c"
proof (induction evs arbitrary: c)
  case Nil
  then show ?case by simp
next
  case (Cons ev evs)
  then obtain c1 where "do_event w ev c = Some c1" "run w evs c1 = Some c'"
    by (auto split: option.splits)
  with Cons.IH [of c1] do_event_const [of w ev c c1] show ?case by simp
qed

lemma Start_const: "config (Start c0) = config c0 \<and> validator (Start c0) = validator c0"
  by (simp add: Start_def split: option.splits)

lemma reachable_facts:
  assumes "NewCrawler compile cfg = Inr c0" and "BaseURL cfg = Some seed"
      and "run w evs (Start c0) = Some c"
  shows "crawl_inv w seed c" and "config c = cfg" and "validator c = validator c0"
      and "fetchable c = fetchable c0"
proof -
  show "crawl_inv w seed c"
    using crawl_inv_run [OF crawl_inv_Start [OF assms(1,2)] assms(3)] .
  have c0: "config c0 = cfg" using assms(1) by (auto elim!: NewCrawler_Inr)
  from run_const [OF assms(3)] Start_const [of c0]
  show "config c = cfg" "validator c = validator c0" by (simp_all add: c0)
  then show "fetchable c = fetchable c0"
    by (intro fetchable_cong) (simp_all add: c0)
qed

lemma results_are_fetchable_popped:
  assumes "inv_results w c"
  shows "set (map result_id (results c)) \<subseteq> item_id ` {item \<in> set (popped c). fetchable c item}"
proof -
  have "mset (map result_id (results c)) \<subseteq># mset (map item_id (filter (fetchable c) (popped c)))"
    using assms unfolding inv_results_def by (metis mset_subset_eq_add_right)
  then have "set_mset (mset (map result_id (results c))) \<subseteq>
             set_mset (mset (map item_id (filter (fetchable c) (popped c))))"
    by (rule set_mset_mono)
  then show ?thesis by auto
qed



lemma example_NewCrawler: "NewCrawler (\<lambda>p. None) (example_config d) = (if d < 0 then Inl MaxDepthNegative else Inr (example_new d))"
  by (simp add: NewCrawler_def Validate_def example_config_def example_new_def NewURLValidator_def example_validator_def)

lemma run_Some_the: "\<not> Option.is_none (run w evs c) \<Longrightarrow> run w evs c = Some (the (run w evs c))"
  by (cases "run w evs c") (simp_all add: Option.is_none_def)


section \<open>Depth bound and termination of the workers\<close>

lemma returned_hold_nothing:
  "list_all (\<lambda>g. g = Returned) gs \<Longrightarrow>
   sum_mset (image_mset held_item (mset gs)) = {#} \<and>
   sum_mset (image_mset sent_item (mset gs)) = {#}"
  by (induction gs) simp_all

lemma all_returned_holds_nothing:
  "all_returned c \<Longrightarrow> in_process c = {#} \<and> after_send c = {#}"
  unfolding all_returned_def in_process_def after_send_def by (rule returned_hold_nothing)

lemma result_urls_sub:
  assumes "inv_results w c"
  shows "mset (map Result.URL (results c)) \<subseteq>#
         mset (map item_key (filter (fetchable c) (popped c)))"
proof -
  have "image_mset fst (image_mset item_id (in_process c) + mset (map result_id (results c))) =
        image_mset fst (mset (map item_id (filter (fetchable c) (popped c))))"
    using assms by (simp only: inv_results_def)
  then have "image_mset item_key (in_process c) + mset (map Result.URL (results c)) =
        mset (map item_key (filter (fetchable c) (popped c)))"
    by (simp add: image_mset.compositionality comp_def item_id_def result_id_def)
  then show ?thesis by (metis mset_subset_eq_add_right)
qed

lemma result_urls_distinct:
  assumes "inv_queue seed c" and "inv_results w c"
  shows "distinct (map Result.URL (results c))"
proof -
  from assms(1) have "distinct (map item_key (popped c))"
    by (auto simp: inv_queue_def queue_inv_def item_key_def [abs_def])
  then have d: "distinct (map item_key (filter (fetchable c) (popped c)))"
    by (rule distinct_map_filter)
  have "count (mset (map Result.URL (results c))) k \<le> 1" for k
  proof -
    have "count (mset (map Result.URL (results c))) k \<le>
          count (mset (map item_key (filter (fetchable c) (popped c)))) k"
      using result_urls_sub [OF assms(2)] by (rule mset_subset_eq_count)
    also have "\<dots> \<le> 1" using d by (simp add: distinct_count_atmost_1)
    finally show ?thesis .
  qed
  note le = this
  show ?thesis
    unfolding distinct_count_atmost_1
  proof (intro allI)
    fix a
    show "count (mset (map Result.URL (results c))) a =
          (if a \<in> set (map Result.URL (results c)) then 1 else 0)"
    proof (cases "a \<in> set (map Result.URL (results c))")
      case True
      then have "0 < count (mset (map Result.URL (results c))) a"
        by (simp only: count_greater_zero_iff set_mset_mset)
      with le [of a] have "count (mset (map Result.URL (results c))) a = 1"
        by linarith
      with True show ?thesis by (simp only: if_True)
    next
      case False
      then have "count (mset (map Result.URL (results c))) a = 0"
        by (simp only: count_mset_0_iff not_False_eq_True)
      with False show ?thesis by (simp only: if_False)
    qed
  qed
qed

lemma all_same_distinct:
  "distinct xs \<Longrightarrow> \<forall>x\<in>set xs. x = a \<Longrightarrow> xs = [] \<or> xs = [a]"
proof (cases xs)
  case Nil
  then show ?thesis by simp
next
  case (Cons y ys)
  assume d: "distinct xs" and s: "\<forall>x\<in>set xs. x = a"
  from Cons s have "y = a" by simp
  moreover have "ys = []"
  proof (cases ys)
    case Nil
    then show ?thesis .
  next
    case (Cons z zs)
    with \<open>xs = y # ys\<close> s d show ?thesis by auto
  qed
  ultimately show ?thesis using Cons by simp
qed

text \<open>
  C3 (as the code has it). In every state of every execution of a crawl: every item
  ever enqueued has depth at most \<^verbatim>\<open>MaxDepth + 1\<close>; every request made is the
  request of a Result, and every Result has depth at most \<^verbatim>\<open>MaxDepth\<close> (an item
  beyond the bound is dropped when it is dequeued). With \<^verbatim>\<open>MaxDepth = 0\<close> the
  Results are none or the single Result of the seed at depth 0, and exactly one Result
  once all workers have returned, when the crawl was not cancelled and the seed passes
  \<^verbatim>\<open>IsValid\<close>.
\<close>

theorem depth_bound_enforced_at_dequeue:
  assumes "NewCrawler compile cfg = Inr c0"
      and "BaseURL cfg = Some seed"
      and "run w evs (Start c0) = Some c"
  shows "(\<forall>item\<in>set (popped c @ URLQueue.queue (queue c)). QueueItem.Depth item \<le> MaxDepth cfg + 1) \<and>
         requests c = map Result.URL (results c) \<and>
         (\<forall>r\<in>set (results c). Result.Depth r \<le> MaxDepth cfg) \<and>
         (MaxDepth cfg = 0 \<longrightarrow>
            results c = [] \<or>
            (\<exists>r. results c = [r] \<and> Result.URL r = url_String seed \<and> Result.Depth r = 0)) \<and>
         (MaxDepth cfg = 0 \<and> all_returned c \<and> \<not> ctx_done c \<and> IsValid (validator c0) seed \<longrightarrow>
            length (results c) = 1)"
proof -
  note rf = reachable_facts [OF assms]
  from rf(1) have iq: "inv_queue seed c" and ir: "inv_results w c"
    and il: "inv_live c" and idp: "inv_depth seed c"
    by (simp_all add: crawl_inv_def)
  have res: "\<exists>item\<in>set (popped c). fetchable c item \<and> item_id item = result_id r"
    if "r \<in> set (results c)" for r
  proof -
    from that have "result_id r \<in> set (map result_id (results c))" by simp
    with results_are_fetchable_popped [OF ir]
    have "result_id r \<in> item_id ` {item \<in> set (popped c). fetchable c item}" by blast
    then obtain item where "item \<in> {item \<in> set (popped c). fetchable c item}"
      and e: "result_id r = item_id item" by (rule imageE)
    then have "item \<in> set (popped c)" "fetchable c item" by simp_all
    with e [symmetric] show ?thesis by (intro bexI [of _ item] conjI)
  qed
  have 1: "\<forall>item\<in>set (popped c @ URLQueue.queue (queue c)). QueueItem.Depth item \<le> MaxDepth cfg + 1"
    using idp rf(2) by (simp add: inv_depth_def)
  have 2: "requests c = map Result.URL (results c)"
    using ir by (simp add: inv_results_def)
  have 3: "\<forall>r\<in>set (results c). Result.Depth r \<le> MaxDepth cfg"
  proof
    fix r assume "r \<in> set (results c)"
    from res [OF this] obtain item where "fetchable c item" "item_id item = result_id r" by auto
    then show "Result.Depth r \<le> MaxDepth cfg"
      using rf(2) by (simp add: fetchable_def item_id_def result_id_def)
  qed
  have only_seed: "Result.URL r = url_String seed \<and> Result.Depth r = 0"
    if "MaxDepth cfg = 0" "r \<in> set (results c)" for r
  proof -
    from res [OF that(2)] obtain item where it: "item \<in> set (popped c)" "fetchable c item"
      "item_id item = result_id r" by auto
    from it(2) that(1) rf(2) have "QueueItem.Depth item \<le> 0" by (simp add: fetchable_def)
    moreover from idp it(1) have "0 \<le> QueueItem.Depth item"
      "QueueItem.Depth item = 0 \<longrightarrow> QueueItem.URL item = seed"
      by (auto simp: inv_depth_def)
    ultimately have "QueueItem.Depth item = 0" "QueueItem.URL item = seed" by auto
    with it(3) show ?thesis by (auto simp: item_id_def result_id_def item_key_def)
  qed
  have 4: "results c = [] \<or>
            (\<exists>r. results c = [r] \<and> Result.URL r = url_String seed \<and> Result.Depth r = 0)"
    if md: "MaxDepth cfg = 0"
  proof -
    have "map Result.URL (results c) = [] \<or> map Result.URL (results c) = [url_String seed]"
      using result_urls_distinct [OF iq ir] only_seed [OF md]
      by (intro all_same_distinct) auto
    then show ?thesis
    proof
      assume "map Result.URL (results c) = []"
      then show ?thesis by simp
    next
      assume "map Result.URL (results c) = [url_String seed]"
      then obtain r where r: "results c = [r]" by (cases "results c") auto
      with only_seed [OF md, of r] show ?thesis by simp
    qed
  qed
  have 5: "length (results c) = 1"
    if md: "MaxDepth cfg = 0" and ar: "all_returned c" and nc: "\<not> ctx_done c"
      and v: "IsValid (validator c0) seed"
  proof -
    have q: "URLQueue.queue (queue c) = []"
      using il ar nc by (auto simp: inv_live_def)
    let ?s = "\<lparr>QueueItem.URL = seed, QueueItem.Depth = 0\<rparr>"
    from idp q have sp: "?s \<in> set (popped c)" by (simp add: inv_depth_def)
    have fs: "fetchable c ?s"
      using v md rf(2,3) by (simp add: fetchable_def)
    have "mset (map result_id (results c)) = mset (map item_id (filter (fetchable c) (popped c)))"
      using ir all_returned_holds_nothing [OF ar] by (simp add: inv_results_def)
    moreover have "item_id ?s \<in> set (map item_id (filter (fetchable c) (popped c)))"
      using sp fs by auto
    ultimately have "item_id ?s \<in> set (map result_id (results c))"
      by (metis set_mset_mset)
    then have "results c \<noteq> []" by auto
    with 4 [OF md] show ?thesis by auto
  qed
  from 1 2 3 4 5 show ?thesis by blast
qed

text \<open>
  The claim as stated fails: with \<^verbatim>\<open>MaxDepth = 0\<close>, after the seed page is
  processed its link \<^verbatim>\<open>/a\<close> is in the queue at depth 1. \<^verbatim>\<open>Push\<close> is called
  with \<^verbatim>\<open>item.Depth+1\<close> whenever the fetch had no error; the depth is tested only
  after \<^verbatim>\<open>Pop\<close>.
\<close>

theorem child_link_enqueued_beyond_max_depth_counterexample:
  "NewCrawler (\<lambda>p. None) (example_config 0) = Inr (example_new 0) \<and>
   \<not> Option.is_none (run world_site push_run (Start (example_new 0))) \<and>
   URLQueue.queue (queue (the (run world_site push_run (Start (example_new 0))))) =
     [\<lparr>QueueItem.URL = example_a, QueueItem.Depth = 1\<rparr>] \<and>
   MaxDepth (config (the (run world_site push_run (Start (example_new 0))))) = 0"
proof -
  have "NewCrawler (\<lambda>p. None) (example_config 0) = Inr (example_new 0)"
    by (simp add: example_NewCrawler)
  moreover have "\<not> Option.is_none (run world_site push_run (Start (example_new 0)))"
    by code_simp
  moreover have "URLQueue.queue (queue (the (run world_site push_run (Start (example_new 0))))) =
     [\<lparr>QueueItem.URL = example_a, QueueItem.Depth = 1\<rparr>]"
    by code_simp
  moreover have "MaxDepth (config (the (run world_site push_run (Start (example_new 0))))) = 0"
    by code_simp
  ultimately show ?thesis by blast
qed

theorem depth_bound_enforced_at_dequeue_witness:
  "NewCrawler (\<lambda>p. None) (example_config 0) = Inr (example_new 0) \<and>
   BaseURL (example_config 0) = Some example_base \<and>
   run world_site skip_run (Start (example_new 0)) =
     Some (the (run world_site skip_run (Start (example_new 0)))) \<and>
   MaxDepth (example_config 0) = 0 \<and>
   all_returned (the (run world_site skip_run (Start (example_new 0)))) \<and>
   \<not> ctx_done (the (run world_site skip_run (Start (example_new 0)))) \<and>
   IsValid (validator (example_new 0)) example_base \<and>
   map QueueItem.Depth (popped (the (run world_site skip_run (Start (example_new 0))))) = [0, 1] \<and>
   requests (the (run world_site skip_run (Start (example_new 0)))) = [''https://example.com/''] \<and>
   length (results (the (run world_site skip_run (Start (example_new 0))))) = 1"
proof -
  let ?c = "the (run world_site skip_run (Start (example_new 0)))"
  have h1: "NewCrawler (\<lambda>p. None) (example_config 0) = Inr (example_new 0)"
    by (simp add: example_NewCrawler)
  have h2: "BaseURL (example_config 0) = Some example_base"
    by (simp add: example_config_def)
  have "\<not> Option.is_none (run world_site skip_run (Start (example_new 0)))"
    by code_simp
  then have h3: "run world_site skip_run (Start (example_new 0)) = Some ?c"
    by (rule run_Some_the)
  have md: "MaxDepth (example_config 0) = 0" by (simp add: example_config_def)
  have ar: "all_returned ?c" by code_simp
  have nc: "\<not> ctx_done ?c" by code_simp
  have v: "IsValid (validator (example_new 0)) example_base" by code_simp
  have d: "map QueueItem.Depth (popped ?c) = [0, 1]" by code_simp
  have rq: "requests ?c = [''https://example.com/'']" by code_simp
  from depth_bound_enforced_at_dequeue [OF h1 h2 h3] md ar nc v
  have "length (results ?c) = 1" by blast
  with h1 h2 h3 md ar nc v d rq show ?thesis by blast
qed

text \<open>
  C1. The code on the small site with two workers: worker 0 takes the seed and is
  inside \<^verbatim>\<open>Process\<close>; worker 1 then finds the queue empty and returns, although
  the context is not cancelled and the fetch of worker 0 is in flight. When worker 0 has
  pushed the link of the seed page, the queue holds \<^verbatim>\<open>/a\<close> and worker 1 is gone.
  Worker 0 alone then takes \<^verbatim>\<open>/a\<close>, and the crawl ends with one Result for each
  of the two pages.
\<close>

theorem worker_returns_while_fetch_in_flight:
  "NewCrawler (\<lambda>p. None) (example_config 1) = Inr (example_new 1) \<and>
   \<not> Option.is_none (run world_site early_exit_run (Start (example_new 1))) \<and>
   goroutines (the (run world_site early_exit_run (Start (example_new 1)))) =
     [InProcess example_item, Returned] \<and>
   \<not> ctx_done (the (run world_site early_exit_run (Start (example_new 1)))) \<and>
   URLQueue.queue (queue (the (run world_site late_push_run (Start (example_new 1))))) =
     [example_a_item] \<and>
   goroutines (the (run world_site late_push_run (Start (example_new 1)))) =
     [AtLoopTop, Returned] \<and>
   goroutines (the (run world_site full_run (Start (example_new 1)))) = [Returned, Returned] \<and>
   map Result.URL (results (the (run world_site full_run (Start (example_new 1))))) =
     [''https://example.com/'', ''https://example.com/a'']"
proof -
  have "NewCrawler (\<lambda>p. None) (example_config 1) = Inr (example_new 1)"
    by (simp add: example_NewCrawler)
  moreover have "\<not> Option.is_none (run world_site early_exit_run (Start (example_new 1)))"
    by code_simp
  moreover have "goroutines (the (run world_site early_exit_run (Start (example_new 1)))) =
     [InProcess example_item, Returned]"
    by code_simp
  moreover have "\<not> ctx_done (the (run world_site early_exit_run (Start (example_new 1))))"
    by code_simp
  moreover have "URLQueue.queue (queue (the (run world_site late_push_run (Start (example_new 1))))) =
     [example_a_item]"
    by code_simp
  moreover have "goroutines (the (run world_site late_push_run (Start (example_new 1)))) =
     [AtLoopTop, Returned]"
    by code_simp
  moreover have "goroutines (the (run world_site full_run (Start (example_new 1)))) = [Returned, Returned]"
    by code_simp
  moreover have "map Result.URL (results (the (run world_site full_run (Start (example_new 1))))) =
     [''https://example.com/'', ''https://example.com/a'']"
    by code_simp
  ultimately show ?thesis by blast
qed

section \<open>Links of a page\<close>












end
